theory Spec2Isabelle
  imports Complex_Main "HOL-Library.Sublist"
begin

section \<open>Values and dictionaries\<close>

text \<open>
  The application keeps its tasks as Python dictionaries whose values are what
  \<^verbatim>\<open>json.load\<close> produces. A Python \<^verbatim>\<open>str\<close> is held as the bytes of its UTF-8
  encoding, so a \<^typ>\<open>string\<close> (the section on text says how); floats do not occur in
  a task and are left out of the value type.
\<close>

datatype json =
    JNull
  | JBool bool
  | JInt int
  | JStr string
  | JList "json list"
  | JObj "(string \<times> json) list"

type_synonym dict = "(string \<times> json) list"

text \<open>A dictionary keeps its keys in insertion order; \<^verbatim>\<open>d[k] = v\<close> replaces the value of a
  key that is present where it stands and appends a new key at the end.\<close>

definition dict_get :: "dict \<Rightarrow> string \<Rightarrow> json option" where
  "dict_get d k = map_of d k"

fun dict_set :: "dict \<Rightarrow> string \<Rightarrow> json \<Rightarrow> dict" where
  "dict_set [] k v = [(k, v)]"
| "dict_set ((k', v') # d) k v =
     (if k' = k then (k, v) # d else (k', v') # dict_set d k v)"

text \<open>\<^verbatim>\<open>dict(pairs)\<close>: the pairs are inserted from left to right.\<close>

definition dict_of_pairs :: "(string \<times> json) list \<Rightarrow> dict" where
  "dict_of_pairs ps = foldl (\<lambda>d (k, v). dict_set d k v) [] ps"

text \<open>Python's truth value of an object, as \<^verbatim>\<open>if x:\<close> tests it.\<close>

fun truthy :: "json \<Rightarrow> bool" where
  "truthy JNull = False"
| "truthy (JBool b) = b"
| "truthy (JInt i) = (i \<noteq> 0)"
| "truthy (JStr s) = (s \<noteq> [])"
| "truthy (JList xs) = (xs \<noteq> [])"
| "truthy (JObj d) = (d \<noteq> [])"

section \<open>Text\<close>

text \<open>
  A Python \<^verbatim>\<open>str\<close> is a sequence of code points. The model holds it as the bytes of its
  UTF-8 encoding, one to four for each code point, so a \<^typ>\<open>string\<close> here can be any text.
  A \<^verbatim>\<open>str\<close> can also hold a surrogate code point (\<^verbatim>\<open>D800\<close> to \<^verbatim>\<open>DFFF\<close>) by itself, which
  no text does; it gets the three bytes that the same scheme gives its number, so that
  every \<^verbatim>\<open>str\<close> has its bytes and different ones have different bytes. \<open>next_cp\<close> reads the
  code point at the head of the bytes, \<open>utf8_encode\<close> writes one, and \<open>code_points\<close> reads
  them all; it has no result on bytes that are not those of a \<^verbatim>\<open>str\<close>.
\<close>

definition is_cont :: "char \<Rightarrow> bool" where
  "is_cont c = (128 \<le> (of_char c :: nat) \<and> (of_char c :: nat) < 192)"

definition cont_val :: "char \<Rightarrow> nat" where
  "cont_val c = of_char c - 128"

definition next_cp :: "string \<Rightarrow> (nat \<times> string) option" where
  "next_cp s =
     (case s of
        [] \<Rightarrow> None
      | a # r \<Rightarrow>
          (let n = (of_char a :: nat) in
           if n < 128 then Some (n, r)
           else if 194 \<le> n \<and> n < 224 then
             (case r of
                b # r1 \<Rightarrow> (if is_cont b then Some ((n - 192) * 64 + cont_val b, r1) else None)
              | _ \<Rightarrow> None)
           else if 224 \<le> n \<and> n < 240 then
             (case r of
                b # c # r2 \<Rightarrow>
                  (let cp = ((n - 224) * 64 + cont_val b) * 64 + cont_val c in
                   if is_cont b \<and> is_cont c \<and> 2048 \<le> cp then Some (cp, r2) else None)
              | _ \<Rightarrow> None)
           else if 240 \<le> n \<and> n < 245 then
             (case r of
                b # c # d # r3 \<Rightarrow>
                  (let cp = (((n - 240) * 64 + cont_val b) * 64 + cont_val c) * 64 + cont_val d in
                   if is_cont b \<and> is_cont c \<and> is_cont d \<and> 65536 \<le> cp \<and> cp < 1114112
                   then Some (cp, r3) else None)
              | _ \<Rightarrow> None)
           else None))"

definition utf8_encode :: "nat \<Rightarrow> string" where
  "utf8_encode n =
     (if n < 128 then [char_of n]
      else if n < 2048 then [char_of (192 + n div 64), char_of (128 + n mod 64)]
      else if n < 65536 then
        [char_of (224 + n div 4096), char_of (128 + n div 64 mod 64), char_of (128 + n mod 64)]
      else
        [char_of (240 + n div 262144), char_of (128 + n div 4096 mod 64),
         char_of (128 + n div 64 mod 64), char_of (128 + n mod 64)])"

function code_points :: "string \<Rightarrow> nat list option" where
  "code_points [] = Some []"
| "code_points (a # r) =
     (case next_cp (a # r) of
        None \<Rightarrow> None
      | Some (n, r') \<Rightarrow> map_option (\<lambda>ns. n # ns) (code_points r'))"
  by pat_completeness auto
termination
  by (relation "measure length")
     (auto simp: next_cp_def Let_def split: list.splits if_splits)

definition high_surrogate :: "nat \<Rightarrow> bool" where
  "high_surrogate n = (55296 \<le> n \<and> n < 56320)"

definition low_surrogate :: "nat \<Rightarrow> bool" where
  "low_surrogate n = (56320 \<le> n \<and> n < 57344)"

text \<open>\<^verbatim>\<open>json.load\<close> reads the escapes of a high and of a low surrogate that follow each other
  as one code point, so a \<^verbatim>\<open>str\<close> that has the two as code points of their own is not read
  back as it was written. Such a \<^verbatim>\<open>str\<close> is no text (a text has no surrogate at all);
  \<open>valid_text\<close> holds of the bytes of every other \<^verbatim>\<open>str\<close>.\<close>

fun pair_free :: "nat list \<Rightarrow> bool" where
  "pair_free (a # b # r) = (\<not> (high_surrogate a \<and> low_surrogate b) \<and> pair_free (b # r))"
| "pair_free _ = True"

definition valid_text :: "string \<Rightarrow> bool" where
  "valid_text s = (case code_points s of None \<Rightarrow> False | Some ns \<Rightarrow> pair_free ns)"

section \<open>Writing JSON: \<^verbatim>\<open>json.dump(tasks, f, indent=4)\<close>\<close>

definition digit_char :: "nat \<Rightarrow> char" where
  "digit_char d = char_of (48 + d)"

fun show_nat :: "nat \<Rightarrow> string" where
  "show_nat n = (if n < 10 then [digit_char n] else show_nat (n div 10) @ [digit_char (n mod 10)])"

declare show_nat.simps [simp del]

definition show_int :: "int \<Rightarrow> string" where
  "show_int i = (if i < 0 then CHR ''-'' # show_nat (nat (- i)) else show_nat (nat i))"

definition hex_char :: "nat \<Rightarrow> char" where
  "hex_char d = (if d < 10 then char_of (48 + d) else char_of (87 + d))"

definition hex4 :: "nat \<Rightarrow> string" where
  "hex4 n = [hex_char (n div 4096), hex_char (n div 256 mod 16), hex_char (n div 16 mod 16),
             hex_char (n mod 16)]"

text \<open>One code point as \<^verbatim>\<open>json.dump\<close> writes it with \<^verbatim>\<open>ensure_ascii\<close> (the default): the
  quote, the backslash and the five control characters with a short form get it, the
  printable ASCII characters stand for themselves, every other code point below
  \<^verbatim>\<open>10000\<close> is written \<^verbatim>\<open>\uxxxx\<close>, and one from there on as its pair of surrogates.\<close>

definition encode_char :: "nat \<Rightarrow> string" where
  "encode_char n =
     (if n = 34 then [CHR 0x5C, CHR 0x22]
      else if n = 92 then [CHR 0x5C, CHR 0x5C]
      else if n = 10 then [CHR 0x5C, CHR ''n'']
      else if n = 13 then [CHR 0x5C, CHR ''r'']
      else if n = 9 then [CHR 0x5C, CHR ''t'']
      else if n = 8 then [CHR 0x5C, CHR ''b'']
      else if n = 12 then [CHR 0x5C, CHR ''f'']
      else if 32 \<le> n \<and> n \<le> 126 then [char_of n]
      else if n < 65536 then CHR 0x5C # CHR ''u'' # hex4 n
      else CHR 0x5C # CHR ''u'' # hex4 (55296 + (n - 65536) div 1024) @
           CHR 0x5C # CHR ''u'' # hex4 (56320 + (n - 65536) mod 1024))"

definition encode_text :: "string \<Rightarrow> string" where
  "encode_text s = (case code_points s of None \<Rightarrow> [] | Some ns \<Rightarrow> concat (map encode_char ns))"

definition encode_str :: "string \<Rightarrow> string" where
  "encode_str s = CHR 0x22 # encode_text s @ [CHR 0x22]"

text \<open>A new line followed by four spaces for each level of nesting.\<close>

definition newline_indent :: "nat \<Rightarrow> string" where
  "newline_indent lvl = CHR 0x0A # replicate (4 * lvl) CHR '' ''"

fun dumps :: "nat \<Rightarrow> json \<Rightarrow> string"
  and dumps_items :: "nat \<Rightarrow> json list \<Rightarrow> string"
  and dumps_members :: "nat \<Rightarrow> (string \<times> json) list \<Rightarrow> string" where
  "dumps lvl JNull = ''null''"
| "dumps lvl (JBool b) = (if b then ''true'' else ''false'')"
| "dumps lvl (JInt i) = show_int i"
| "dumps lvl (JStr s) = encode_str s"
| "dumps lvl (JList xs) =
     (if xs = [] then ''[]''
      else ''['' @ newline_indent (Suc lvl) @ dumps_items (Suc lvl) xs)"
| "dumps lvl (JObj ms) =
     (if ms = [] then ''{}''
      else ''{'' @ newline_indent (Suc lvl) @ dumps_members (Suc lvl) ms)"
| "dumps_items lvl [] = newline_indent (lvl - 1) @ '']''"
| "dumps_items lvl (x # xs) =
     dumps lvl x @
     (if xs = [] then dumps_items lvl []
      else '','' @ newline_indent lvl @ dumps_items lvl xs)"
| "dumps_members lvl [] = newline_indent (lvl - 1) @ ''}''"
| "dumps_members lvl ((k, v) # ms) =
     encode_str k @ '': '' @ dumps lvl v @
     (if ms = [] then dumps_members lvl []
      else '','' @ newline_indent lvl @ dumps_members lvl ms)"

definition json_dumps :: "json \<Rightarrow> string" where
  "json_dumps v = dumps 0 v"

section \<open>Dates and the clock\<close>

record date =
  year :: nat
  month :: nat
  day :: nat

text \<open>A reading of \<^verbatim>\<open>datetime.now()\<close>: the local calendar fields, and in \<open>timestamp_us\<close> what
  \<^verbatim>\<open>.timestamp()\<close> reports for it, counted in microseconds since the epoch.\<close>

record datetime = date +
  hour :: nat
  minute :: nat
  second :: nat
  microsecond :: nat
  timestamp_us :: int

definition pad :: "nat \<Rightarrow> nat \<Rightarrow> string" where
  "pad w n = (let s = show_nat n in replicate (w - length s) CHR ''0'' @ s)"

text \<open>\<^verbatim>\<open>strftime("%Y-%m-%d")\<close> and \<^verbatim>\<open>strftime("%Y-%m-%d %H:%M:%S")\<close>.\<close>

definition strftime_ymd :: "'a date_scheme \<Rightarrow> string" where
  "strftime_ymd d = pad 4 (year d) @ ''-'' @ pad 2 (month d) @ ''-'' @ pad 2 (day d)"

definition strftime_ymd_hms :: "datetime \<Rightarrow> string" where
  "strftime_ymd_hms t =
     strftime_ymd t @ '' '' @ pad 2 (hour t) @ '':'' @ pad 2 (minute t) @ '':'' @ pad 2 (second t)"

text \<open>\<^verbatim>\<open>int(datetime.now().timestamp())\<close>: \<^verbatim>\<open>int\<close> drops the fraction, rounding towards zero.\<close>

definition int_timestamp :: "datetime \<Rightarrow> int" where
  "int_timestamp t =
     (if 0 \<le> timestamp_us t then timestamp_us t div 1000000
      else - ((- timestamp_us t) div 1000000))"

section \<open>The application state\<close>

text \<open>
  The task dictionaries are objects: the list in \<^verbatim>\<open>st.session_state.tasks\<close>, the filtered
  list built from it and \<^verbatim>\<open>st.session_state.editing_task\<close> all refer to the same objects,
  and the code updates a task through any of these references. The model keeps the
  dictionaries in a store and the references as addresses.
\<close>

type_synonym addr = nat

text \<open>What the code can observe of \<^verbatim>\<open>todo_data.json\<close>: no such file; a file whose bytes
  decode, under the encoding \<^verbatim>\<open>open\<close> uses by default, to a text; a file whose bytes do
  not decode (the single byte \<^verbatim>\<open>FF\<close> under UTF-8, say).\<close>

datatype data_file = Absent | Text string | Undecodable

record app =
  heap :: "addr \<Rightarrow> dict"
  fresh :: addr
  tasks :: "addr list"
  editing_task :: "addr option"
  data_file :: data_file

datatype message =
    Sidebar_error string
  | Sidebar_success string
  | Info string

definition task_values :: "app \<Rightarrow> addr list \<Rightarrow> json" where
  "task_values s ts = JList (map (\<lambda>a. JObj (heap s a)) ts)"

text \<open>\<^verbatim>\<open>save_tasks(tasks)\<close>: opening with mode \<^verbatim>\<open>"w"\<close> replaces the whole file.\<close>

definition save_tasks :: "addr list \<Rightarrow> app \<Rightarrow> app" where
  "save_tasks ts s = s\<lparr>data_file := Text (json_dumps (task_values s ts))\<rparr>"

section \<open>Adding a task\<close>

datatype priority = Low | Medium | High

fun priority_str :: "priority \<Rightarrow> string" where
  "priority_str Low = ''Low''"
| "priority_str Medium = ''Medium''"
| "priority_str High = ''High''"

record add_form =
  form_task :: string
  form_category :: string
  form_priority :: priority
  form_due_date :: date
  form_notes :: string
  submitted :: bool

text \<open>\<^verbatim>\<open>add_task_form\<close> reads the clock twice, for \<open>id\<close> and for \<open>created_at\<close>.\<close>

definition add_task_form :: "add_form \<Rightarrow> datetime \<Rightarrow> datetime \<Rightarrow> dict option \<times> message list" where
  "add_task_form f now_id now_created =
     (if submitted f then
        (if form_task f = [] then (None, [Sidebar_error ''Task description is required!''])
         else (Some [(''id'', JInt (int_timestamp now_id)),
                     (''task'', JStr (form_task f)),
                     (''category'', JStr (form_category f)),
                     (''priority'', JStr (priority_str (form_priority f))),
                     (''due_date'', JStr (strftime_ymd (form_due_date f))),
                     (''notes'', JStr (form_notes f)),
                     (''completed'', JBool False),
                     (''created_at'', JStr (strftime_ymd_hms now_created))], []))
      else (None, []))"

text \<open>The part of \<^verbatim>\<open>main\<close> that adds: a dictionary that is returned and not empty is
  appended as a new object, and the list is saved.\<close>

definition main_add :: "add_form \<Rightarrow> datetime \<Rightarrow> datetime \<Rightarrow> app \<Rightarrow> app \<times> message list" where
  "main_add f now_id now_created s =
     (case add_task_form f now_id now_created of
        (None, msgs) \<Rightarrow> (s, msgs)
      | (Some t, msgs) \<Rightarrow>
          (if t = [] then (s, msgs)
           else
             let a = fresh s;
                 s1 = s\<lparr>heap := (heap s)(a := t), fresh := Suc a, tasks := tasks s @ [a]\<rparr>
             in (save_tasks (tasks s1) s1, msgs @ [Sidebar_success ''Task added successfully!''])))"

definition task_ids :: "app \<Rightarrow> json option list" where
  "task_ids s = map (\<lambda>a. dict_get (heap s a) ''id'') (tasks s)"

section \<open>Completing and editing a task\<close>

text \<open>\<^verbatim>\<open>task.get('completed', False)\<close>, and Python's \<^verbatim>\<open>!=\<close> between the checkbox's boolean
  and that value: a boolean equals the integers 0 and 1, and nothing else besides itself.\<close>

definition get_completed :: "dict \<Rightarrow> json" where
  "get_completed d = (case dict_get d ''completed'' of None \<Rightarrow> JBool False | Some v \<Rightarrow> v)"

fun bool_eq :: "bool \<Rightarrow> json \<Rightarrow> bool" where
  "bool_eq b (JBool c) = (b = c)"
| "bool_eq b (JInt i) = (i = (if b then 1 else 0))"
| "bool_eq b _ = False"

text \<open>Lines 67 to 72 of \<^verbatim>\<open>display_tasks\<close>, for the row of the task at \<open>a\<close> whose checkbox
  reads \<open>done\<close>; the boolean returned tells whether \<^verbatim>\<open>st.rerun()\<close> was called.\<close>

definition toggle_complete :: "addr \<Rightarrow> bool \<Rightarrow> app \<Rightarrow> app \<times> bool" where
  "toggle_complete a done s =
     (if \<not> bool_eq done (get_completed (heap s a)) then
        let s1 = s\<lparr>heap := (heap s)(a := dict_set (heap s a) ''completed'' (JBool done))\<rparr>
        in (save_tasks (tasks s1) s1, True)
      else (s, False))"

datatype exn = KeyError | ValueError | AttributeError | TypeError
  | JSONDecodeError | FileNotFoundError | UnicodeDecodeError

record edit_form =
  new_task :: string
  new_category :: string
  new_priority :: priority
  new_due :: date
  save_changes :: bool
  cancel :: bool

text \<open>\<^verbatim>\<open>edit_task_form\<close>. Before any button is read the form looks up \<^verbatim>\<open>task['task']\<close> and
  the position of the task's priority in the list of the three priorities; both can raise.\<close>

definition edit_task_form :: "edit_form \<Rightarrow> app \<Rightarrow> exn + app" where
  "edit_task_form f s =
     (case editing_task s of
        None \<Rightarrow> Inr s
      | Some a \<Rightarrow>
          let task = heap s a in
          if dict_get task ''task'' = None then Inl KeyError
          else if (case dict_get task ''priority'' of None \<Rightarrow> JStr ''Medium'' | Some p \<Rightarrow> p)
                    \<notin> set (map JStr [''Low'', ''Medium'', ''High'']) then Inl ValueError
          else if save_changes f then
            let t1 = dict_set task ''task'' (JStr (new_task f));
                t2 = dict_set t1 ''category'' (JStr (new_category f));
                t3 = dict_set t2 ''priority'' (JStr (priority_str (new_priority f)));
                t4 = dict_set t3 ''due_date'' (JStr (strftime_ymd (new_due f)));
                s1 = s\<lparr>heap := (heap s)(a := t4)\<rparr>;
                s2 = save_tasks (tasks s1) s1
            in Inr (s2\<lparr>editing_task := None\<rparr>)
          else if cancel f then Inr (s\<lparr>editing_task := None\<rparr>)
          else Inr s)"

section \<open>Filtering the task list\<close>

















section \<open>Reading dates and counting days\<close>

definition is_digit :: "char \<Rightarrow> bool" where
  "is_digit c = (48 \<le> (of_char c :: nat) \<and> (of_char c :: nat) \<le> 57)"

definition digit_val :: "char \<Rightarrow> nat" where
  "digit_val c = of_char c - 48"

text \<open>In a pattern on a \<^verbatim>\<open>str\<close>, \<^verbatim>\<open>\d\<close> matches the decimal digits of every script, and
  \<^verbatim>\<open>int\<close> reads them all. They come in runs of ten, from zero to nine; the list has the
  code point of each zero (Unicode 14.0, which Python 3.11 carries).\<close>

definition decimal_zeros :: "nat list" where
  "decimal_zeros =
     [48, 1632, 1776, 1984, 2406, 2534, 2662, 2790, 2918, 3046, 3174, 3302, 3430, 3558, 3664,
      3792, 3872, 4160, 4240, 6112, 6160, 6470, 6608, 6784, 6800, 6992, 7088, 7232, 7248,
      42528, 43216, 43264, 43472, 43504, 43600, 44016, 65296, 66720, 68912, 69734, 69872,
      69942, 70096, 70384, 70736, 70864, 71248, 71360, 71472, 71904, 72016, 72784, 73040,
      73120, 92768, 92864, 93008, 120782, 120792, 120802, 120812, 120822, 123200, 123632,
      125264, 130032]"

definition decimal_value :: "nat \<Rightarrow> nat option" where
  "decimal_value n =
     (case filter (\<lambda>z. z \<le> n \<and> n < z + 10) decimal_zeros of
        [] \<Rightarrow> None
      | z # _ \<Rightarrow> Some (n - z))"

text \<open>One decimal digit at the head of a text: its value and the rest.\<close>

definition take_decimal :: "string \<Rightarrow> (nat \<times> string) option" where
  "take_decimal s =
     (case next_cp s of
        None \<Rightarrow> None
      | Some (n, r) \<Rightarrow> (case decimal_value n of None \<Rightarrow> None | Some v \<Rightarrow> Some (v, r)))"

text \<open>The year as the pattern of \<^verbatim>\<open>%Y\<close> accepts it, \<^verbatim>\<open>\d\d\d\d\<close>, with the rest of the text.\<close>

definition year_token :: "string \<Rightarrow> (nat \<times> string) option" where
  "year_token s =
     (case take_decimal s of
        None \<Rightarrow> None
      | Some (a, s1) \<Rightarrow>
          (case take_decimal s1 of
             None \<Rightarrow> None
           | Some (b, s2) \<Rightarrow>
               (case take_decimal s2 of
                  None \<Rightarrow> None
                | Some (c, s3) \<Rightarrow>
                    (case take_decimal s3 of
                       None \<Rightarrow> None
                     | Some (d, s4) \<Rightarrow> Some (1000 * a + 100 * b + 10 * c + d, s4)))))"

text \<open>The month and the day as the patterns of \<^verbatim>\<open>%m\<close> and \<^verbatim>\<open>%d\<close> accept them:
  \<^verbatim>\<open>1[0-2]|0[1-9]|[1-9]\<close> and \<^verbatim>\<open>3[0-1]|[1-2]\d|0[1-9]|[1-9]| [1-9]\<close>. Only the second
  digit of a day from 10 to 29 can be of another script.\<close>

fun month_token :: "string \<Rightarrow> nat option" where
  "month_token [a, b] =
     (if a = CHR ''1'' \<and> b \<in> set ''012'' then Some (10 + digit_val b)
      else if a = CHR ''0'' \<and> is_digit b \<and> b \<noteq> CHR ''0'' then Some (digit_val b)
      else None)"
| "month_token [a] = (if is_digit a \<and> a \<noteq> CHR ''0'' then Some (digit_val a) else None)"
| "month_token _ = None"

fun day_token :: "string \<Rightarrow> nat option" where
  "day_token [] = None"
| "day_token [a] = (if is_digit a \<and> a \<noteq> CHR ''0'' then Some (digit_val a) else None)"
| "day_token (a # bs) =
     (if a \<in> set ''12'' then
        (case take_decimal bs of
           Some (v, []) \<Rightarrow> Some (10 * digit_val a + v)
         | _ \<Rightarrow> None)
      else
        (case bs of
           [b] \<Rightarrow>
             (if a = CHR ''3'' \<and> b \<in> set ''01'' then Some (30 + digit_val b)
              else if a \<in> set ''0 '' \<and> is_digit b \<and> b \<noteq> CHR ''0'' then Some (digit_val b)
              else None)
         | _ \<Rightarrow> None))"

definition is_leap :: "nat \<Rightarrow> bool" where
  "is_leap y = (y mod 4 = 0 \<and> (y mod 100 \<noteq> 0 \<or> y mod 400 = 0))"

definition days_in_month :: "nat \<Rightarrow> nat \<Rightarrow> nat" where
  "days_in_month y m =
     (if m = 2 then (if is_leap y then 29 else 28)
      else if m \<in> {4, 6, 9, 11} then 30 else 31)"

text \<open>The dates \<^verbatim>\<open>datetime.date\<close> accepts: years from 1, a month of the year, a day of the month.\<close>

definition valid_date :: "nat \<Rightarrow> nat \<Rightarrow> nat \<Rightarrow> bool" where
  "valid_date y m d = (1 \<le> y \<and> 1 \<le> m \<and> m \<le> 12 \<and> 1 \<le> d \<and> d \<le> days_in_month y m)"

text \<open>\<^verbatim>\<open>datetime.strptime(s, "%Y-%m-%d").date()\<close> on a string; \<open>None\<close> stands for the
  \<^verbatim>\<open>ValueError\<close> it raises. The text must be four digits, a month and a day, separated by
  hyphens, with nothing before or after, and name a date of the calendar.\<close>

definition strptime_ymd :: "string \<Rightarrow> date option" where
  "strptime_ymd s =
     (case year_token s of
        Some (y, sep # rest) \<Rightarrow>
          (if sep = CHR ''-'' then
             (case dropWhile (\<lambda>c. c \<noteq> CHR ''-'') rest of
                [] \<Rightarrow> None
              | _ # dtext \<Rightarrow>
                  (case (month_token (takeWhile (\<lambda>c. c \<noteq> CHR ''-'') rest), day_token dtext) of
                     (Some m, Some d) \<Rightarrow>
                       (if valid_date y m d then Some \<lparr>year = y, month = m, day = d\<rparr> else None)
                   | _ \<Rightarrow> None))
           else None)
      | _ \<Rightarrow> None)"

text \<open>\<^verbatim>\<open>date.toordinal()\<close>: the number of the day, counting 1 January of year 1 as day 1.
  The table gives the days before each month of a common year; it is read for the months
  1 to 12 only, which is what a date holds.\<close>

definition days_before_year :: "nat \<Rightarrow> nat" where
  "days_before_year y = (y - 1) * 365 + (y - 1) div 4 - (y - 1) div 100 + (y - 1) div 400"

definition days_before_month :: "nat \<Rightarrow> nat \<Rightarrow> nat" where
  "days_before_month y m =
     [0, 31, 59, 90, 120, 151, 181, 212, 243, 273, 304, 334] ! (m - 1)
       + (if 2 < m \<and> is_leap y then 1 else 0)"

definition toordinal :: "'a date_scheme \<Rightarrow> int" where
  "toordinal d = int (days_before_year (year d) + days_before_month (year d) (month d) + day d)"

text \<open>\<^verbatim>\<open>(due_date - today).days\<close> for two dates.\<close>

definition days_between :: "'a date_scheme \<Rightarrow> 'b date_scheme \<Rightarrow> int" where
  "days_between due today = toordinal due - toordinal today"

section \<open>The due note of a task row\<close>

text \<open>Lines 82 to 95 of \<^verbatim>\<open>display_tasks\<close> add to the row one of
  \<^verbatim>\<open>Overdue by n days\<close>, \<^verbatim>\<open>Due today\<close> and \<^verbatim>\<open>n days left\<close>, or nothing. Whatever is raised
  while the date is read (a \<^verbatim>\<open>ValueError\<close> for a text that is no date, a \<^verbatim>\<open>TypeError\<close> for
  a value that is no text) is caught and dropped.\<close>

datatype due_note = Overdue_by int | Due_today | Days_left int

definition due_note :: "'a date_scheme \<Rightarrow> dict \<Rightarrow> due_note option" where
  "due_note today task =
     (case dict_get task ''due_date'' of
        None \<Rightarrow> None
      | Some v \<Rightarrow>
          (if \<not> truthy v then None
           else (case v of
                   JStr s \<Rightarrow>
                     (case strptime_ymd s of
                        None \<Rightarrow> None
                      | Some due \<Rightarrow>
                          (let days_left = days_between due today in
                           if days_left < 0 then Some (Overdue_by (- days_left))
                           else if days_left = 0 then Some Due_today
                           else Some (Days_left days_left)))
                 | _ \<Rightarrow> None)))"

section \<open>The summary: completion rate and due-status buckets\<close>

text \<open>
  \<^verbatim>\<open>show_charts\<close> hands the list to a data frame. The model covers the columns the
  application itself writes: a \<open>completed\<close> column of booleans, and a \<open>due_date\<close> column
  whose cells are dates written \<^verbatim>\<open>YYYY-MM-DD\<close> in ASCII with leading zeros, empty strings
  or missing. On any other column the functions below answer that they do not cover it.
  The rate is kept as an exact fraction; the binary rounding of the data frame's floats is
  not modelled.
\<close>

definition completed_column :: "dict list \<Rightarrow> bool list option" where
  "completed_column ts =
     those (map (\<lambda>t. case dict_get t ''completed'' of Some (JBool b) \<Rightarrow> Some b | _ \<Rightarrow> None) ts)"

datatype rate_outcome = No_tasks | Rate rat | Chart_error | Rate_not_covered

text \<open>Lines 152 to 161: nothing but a note for an empty list; a \<^verbatim>\<open>KeyError\<close>, reported by
  the handler at the end of \<^verbatim>\<open>show_charts\<close>, when no task has the key; otherwise the mean
  of the column times 100.\<close>

definition completion_rate :: "dict list \<Rightarrow> rate_outcome" where
  "completion_rate ts =
     (if ts = [] then No_tasks
      else if \<forall>t\<in>set ts. dict_get t ''completed'' = None then Chart_error
      else (case completed_column ts of
              Some bs \<Rightarrow> Rate (of_nat (length (filter (\<lambda>b. b) bs)) / of_nat (length bs) * 100)
            | None \<Rightarrow> Rate_not_covered))"

text \<open>A cell of the \<open>due_date\<close> column after \<^verbatim>\<open>pd.to_datetime\<close>: the inner \<open>None\<close> is \<^verbatim>\<open>NaT\<close>,
  the outer one a cell the model does not cover.\<close>

definition iso_date :: "string \<Rightarrow> date option" where
  "iso_date s =
     (if length s = 10 \<and> CHR '' '' \<notin> set s \<and> list_all (\<lambda>c. (of_char c :: nat) < 128) s
      then strptime_ymd s else None)"

definition to_datetime_cell :: "json option \<Rightarrow> date option option" where
  "to_datetime_cell c =
     (case c of
        None \<Rightarrow> Some None
      | Some JNull \<Rightarrow> Some None
      | Some (JStr s) \<Rightarrow>
          (if s = [] then Some None
           else (case iso_date s of Some d \<Rightarrow> Some (Some d) | None \<Rightarrow> None))
      | Some _ \<Rightarrow> None)"

definition time_of_day_us :: "datetime \<Rightarrow> int" where
  "time_of_day_us t =
     ((int (hour t) * 60 + int (minute t)) * 60 + int (second t)) * 1000000 + int (microsecond t)"

text \<open>\<^verbatim>\<open>(df['due_date'] - pd.Timestamp.now()).dt.days\<close>: the due date stands for its midnight,
  the clock's reading keeps its time of day, and \<^verbatim>\<open>.days\<close> rounds the difference down to
  whole days.\<close>

definition days_until_due :: "date \<Rightarrow> datetime \<Rightarrow> int" where
  "days_until_due due now =
     (days_between due now * 86400000000 - time_of_day_us now) div 86400000000"

datatype due_status = Overdue | Due_Soon | Future

text \<open>Lines 187 to 189; for \<^verbatim>\<open>NaT\<close> the number of days is not a number, both comparisons are
  false, and the row is \<open>Future\<close>.\<close>

definition row_status :: "int option \<Rightarrow> due_status" where
  "row_status n =
     (case n of
        None \<Rightarrow> Future
      | Some k \<Rightarrow> (if k < 0 then Overdue else if k \<le> 3 then Due_Soon else Future))"

text \<open>The status of every row whose \<open>completed\<close> is false, in the order of the list; the
  chart counts them by status.\<close>

definition pending_statuses :: "datetime \<Rightarrow> dict list \<Rightarrow> due_status list option" where
  "pending_statuses now ts =
     (case (completed_column ts, those (map (\<lambda>t. to_datetime_cell (dict_get t ''due_date'')) ts)) of
        (Some bs, Some ds) \<Rightarrow>
          Some (map (\<lambda>(b, d). row_status (map_option (\<lambda>due. days_until_due due now) d))
                 (filter (\<lambda>(b, d). \<not> b) (zip bs ds)))
      | _ \<Rightarrow> None)"

definition status_count :: "datetime \<Rightarrow> dict list \<Rightarrow> due_status \<Rightarrow> nat option" where
  "status_count now ts st = map_option (\<lambda>sts. length (filter (\<lambda>x. x = st) sts)) (pending_statuses now ts)"

section \<open>Reading JSON: \<^verbatim>\<open>json.load(f)\<close>\<close>

text \<open>
  The decoder follows \<^verbatim>\<open>json.decoder\<close> and \<^verbatim>\<open>json.scanner\<close>: white space is skipped
  where they skip it, and the first offence ends the scan. \<open>Malformed\<close> stands for
  \<^verbatim>\<open>JSONDecodeError\<close>. \<open>Uncovered\<close> marks a literal whose value the model cannot hold: a
  number with a fraction or an exponent, \<^verbatim>\<open>NaN\<close> and \<^verbatim>\<open>Infinity\<close>. The nested scans take
  fuel, one unit for each call.
\<close>

datatype fail = Malformed | Uncovered | Out_of_fuel

definition is_ws :: "char \<Rightarrow> bool" where
  "is_ws c = (c \<in> {CHR '' '', CHR 0x09, CHR 0x0A, CHR 0x0D})"

definition skip_ws :: "string \<Rightarrow> string" where
  "skip_ws s = dropWhile is_ws s"

definition hex_val :: "char \<Rightarrow> nat option" where
  "hex_val c =
     (let n = (of_char c :: nat) in
      if 48 \<le> n \<and> n \<le> 57 then Some (n - 48)
      else if 97 \<le> n \<and> n \<le> 102 then Some (n - 87)
      else if 65 \<le> n \<and> n \<le> 70 then Some (n - 55)
      else None)"

definition unescape :: "char \<Rightarrow> char option" where
  "unescape e =
     (if e = CHR 0x22 then Some (CHR 0x22)
      else if e = CHR 0x5C then Some (CHR 0x5C)
      else if e = CHR ''/'' then Some (CHR ''/'')
      else if e = CHR ''b'' then Some (CHR 0x08)
      else if e = CHR ''f'' then Some (CHR 0x0C)
      else if e = CHR ''n'' then Some (CHR 0x0A)
      else if e = CHR ''r'' then Some (CHR 0x0D)
      else if e = CHR ''t'' then Some (CHR 0x09)
      else None)"

text \<open>The bytes \<open>p\<close> in front of the string that the rest of the scan gives.\<close>

definition put_text :: "string \<Rightarrow> fail + (string \<times> string) \<Rightarrow> fail + (string \<times> string)" where
  "put_text p r = (case r of Inl e \<Rightarrow> Inl e | Inr (s, rest) \<Rightarrow> Inr (p @ s, rest))"

definition hex4_val :: "char \<Rightarrow> char \<Rightarrow> char \<Rightarrow> char \<Rightarrow> nat option" where
  "hex4_val h1 h2 h3 h4 =
     (case (hex_val h1, hex_val h2, hex_val h3, hex_val h4) of
        (Some a, Some b, Some c, Some d) \<Rightarrow> Some (((a * 16 + b) * 16 + c) * 16 + d)
      | _ \<Rightarrow> None)"

text \<open>\<^verbatim>\<open>scanstring\<close>, from behind the opening quote, in strict mode: a control character
  inside the string is an error. The escape of a high surrogate that is directly
  followed by the escape of a low one is joined with it to one code point; any other
  surrogate stays as it is.\<close>

fun scanstring :: "string \<Rightarrow> fail + (string \<times> string)" where
  "scanstring [] = Inl Malformed"
| "scanstring (c # cs) =
     (if c = CHR 0x22 then Inr ([], cs)
      else if c = CHR 0x5C then
        (case cs of
           [] \<Rightarrow> Inl Malformed
         | e # r \<Rightarrow>
             (if e = CHR ''u'' then
                (case r of
                   h1 # h2 # h3 # h4 # r1 \<Rightarrow>
                     (case hex4_val h1 h2 h3 h4 of
                        None \<Rightarrow> Inl Malformed
                      | Some uni \<Rightarrow>
                          (if high_surrogate uni then
                             (case r1 of
                                b # u # g1 # g2 # g3 # g4 # r2 \<Rightarrow>
                                  (if b = CHR 0x5C \<and> u = CHR ''u'' then
                                     (case hex4_val g1 g2 g3 g4 of
                                        None \<Rightarrow> Inl Malformed
                                      | Some uni2 \<Rightarrow>
                                          (if low_surrogate uni2 then
                                             put_text
                                               (utf8_encode
                                                  (65536 + (uni - 55296) * 1024 + (uni2 - 56320)))
                                               (scanstring r2)
                                           else put_text (utf8_encode uni) (scanstring r1)))
                                   else put_text (utf8_encode uni) (scanstring r1))
                              | _ \<Rightarrow> put_text (utf8_encode uni) (scanstring r1))
                           else put_text (utf8_encode uni) (scanstring r1)))
                 | _ \<Rightarrow> Inl Malformed)
              else (case unescape e of
                      None \<Rightarrow> Inl Malformed
                    | Some ch \<Rightarrow> put_text [ch] (scanstring r))))
      else if (of_char c :: nat) < 32 then Inl Malformed
      else put_text [c] (scanstring cs))"

text \<open>A rest of the text that does not begin with the escape of a low surrogate: the escape
  of a high surrogate before it stays alone.\<close>

definition no_low_escape :: "string \<Rightarrow> bool" where
  "no_low_escape t =
     (\<forall>g1 g2 g3 g4 r2. t = CHR 0x5C # CHR ''u'' # g1 # g2 # g3 # g4 # r2 \<longrightarrow>
        (\<exists>k. hex4_val g1 g2 g3 g4 = Some k \<and> \<not> low_surrogate k))"

definition nat_of_digits :: "string \<Rightarrow> nat" where
  "nat_of_digits ds = foldl (\<lambda>a c. 10 * a + digit_val c) 0 ds"

text \<open>The integer part of a number, \<^verbatim>\<open>0|[1-9]\d*\<close>.\<close>

definition scan_int_part :: "string \<Rightarrow> (nat \<times> string) option" where
  "scan_int_part s =
     (case s of
        [] \<Rightarrow> None
      | c # r \<Rightarrow>
          (if c = CHR ''0'' then Some (0, r)
           else if is_digit c then Some (nat_of_digits (takeWhile is_digit s), dropWhile is_digit s)
           else None))"

text \<open>Whether a fraction \<^verbatim>\<open>\.\d+\<close> or an exponent \<^verbatim>\<open>[eE][-+]?\d+\<close> follows, which makes the
  number a float.\<close>

definition float_follows :: "string \<Rightarrow> bool" where
  "float_follows r =
     (case r of
        c # d # r' \<Rightarrow>
          (c = CHR ''.'' \<and> is_digit d) \<or>
          (c \<in> {CHR ''e'', CHR ''E''} \<and>
             (is_digit d \<or> (d \<in> {CHR ''-'', CHR ''+''} \<and> (case r' of x # _ \<Rightarrow> is_digit x | [] \<Rightarrow> False))))
      | _ \<Rightarrow> False)"

definition scan_number :: "string \<Rightarrow> fail + (json \<times> string)" where
  "scan_number s =
     (let neg = (case s of c # _ \<Rightarrow> c = CHR ''-'' | [] \<Rightarrow> False) in
      case scan_int_part (if neg then tl s else s) of
        Some (n, r) \<Rightarrow>
          (if float_follows r then Inl Uncovered
           else Inr (JInt (if neg then - int n else int n), r))
      | None \<Rightarrow>
          (if prefix ''NaN'' s \<or> prefix ''Infinity'' s \<or> prefix ''-Infinity'' s then Inl Uncovered
           else Inl Malformed))"

fun scan_once :: "nat \<Rightarrow> string \<Rightarrow> fail + (json \<times> string)"
  and scan_items :: "nat \<Rightarrow> string \<Rightarrow> fail + (json list \<times> string)"
  and scan_members :: "nat \<Rightarrow> string \<Rightarrow> fail + ((string \<times> json) list \<times> string)" where
  "scan_once 0 s = Inl Out_of_fuel"
| "scan_once (Suc n) s =
     (case s of
        [] \<Rightarrow> Inl Malformed
      | c # r \<Rightarrow>
          (if c = CHR 0x22 then
             (case scanstring r of Inl e \<Rightarrow> Inl e | Inr (t, r') \<Rightarrow> Inr (JStr t, r'))
           else if c = CHR ''{'' then
             (case skip_ws r of
                [] \<Rightarrow> Inl Malformed
              | c' # r' \<Rightarrow>
                  (if c' = CHR ''}'' then Inr (JObj [], r')
                   else (case scan_members n (c' # r') of
                           Inl e \<Rightarrow> Inl e
                         | Inr (ms, r'') \<Rightarrow> Inr (JObj (dict_of_pairs ms), r''))))
           else if c = CHR ''['' then
             (case skip_ws r of
                [] \<Rightarrow> Inl Malformed
              | c' # r' \<Rightarrow>
                  (if c' = CHR '']'' then Inr (JList [], r')
                   else (case scan_items n (c' # r') of
                           Inl e \<Rightarrow> Inl e
                         | Inr (xs, r'') \<Rightarrow> Inr (JList xs, r''))))
           else if prefix ''null'' s then Inr (JNull, drop 4 s)
           else if prefix ''true'' s then Inr (JBool True, drop 4 s)
           else if prefix ''false'' s then Inr (JBool False, drop 5 s)
           else scan_number s))"
| "scan_items 0 s = Inl Out_of_fuel"
| "scan_items (Suc n) s =
     (case scan_once n s of
        Inl e \<Rightarrow> Inl e
      | Inr (v, r) \<Rightarrow>
          (case skip_ws r of
             [] \<Rightarrow> Inl Malformed
           | c # r' \<Rightarrow>
               (if c = CHR '']'' then Inr ([v], r')
                else if c = CHR '','' then
                  (case scan_items n (skip_ws r') of
                     Inl e \<Rightarrow> Inl e
                   | Inr (vs, r'') \<Rightarrow> Inr (v # vs, r''))
                else Inl Malformed)))"
| "scan_members 0 s = Inl Out_of_fuel"
| "scan_members (Suc n) s =
     (case s of
        [] \<Rightarrow> Inl Malformed
      | q # r \<Rightarrow>
          (if q \<noteq> CHR 0x22 then Inl Malformed
           else (case scanstring r of
                   Inl e \<Rightarrow> Inl e
                 | Inr (k, r1) \<Rightarrow>
                     (case skip_ws r1 of
                        [] \<Rightarrow> Inl Malformed
                      | c # r2 \<Rightarrow>
                          (if c \<noteq> CHR '':'' then Inl Malformed
                           else (case scan_once n (skip_ws r2) of
                                   Inl e \<Rightarrow> Inl e
                                 | Inr (v, r3) \<Rightarrow>
                                     (case skip_ws r3 of
                                        [] \<Rightarrow> Inl Malformed
                                      | d # r4 \<Rightarrow>
                                          (if d = CHR ''}'' then Inr ([(k, v)], r4)
                                           else if d = CHR '','' then
                                             (case scan_members n (skip_ws r4) of
                                                Inl e \<Rightarrow> Inl e
                                              | Inr (ms, r5) \<Rightarrow> Inr ((k, v) # ms, r5))
                                           else Inl Malformed))))))))"

text \<open>\<^verbatim>\<open>json.loads\<close>: one value, white space around it, and nothing else. Every call of the
  nested scans but the first follows a character that was read, so twice the length of
  the text is fuel enough (lemma \<open>json_loads_has_fuel\<close> below).\<close>

definition json_loads :: "string \<Rightarrow> fail + json" where
  "json_loads s =
     (case scan_once (2 * length s + 2) (skip_ws s) of
        Inl e \<Rightarrow> Inl e
      | Inr (v, r) \<Rightarrow> (if skip_ws r = [] then Inr v else Inl Malformed))"

section \<open>Loading the task list\<close>

text \<open>What a call does: it returns a value, it raises, or the model does not cover it
  (the text holds a literal marked \<open>Uncovered\<close> above).\<close>

datatype 'a outcome = Returns 'a | Raises exn | Not_covered

text \<open>\<^verbatim>\<open>open(DATA_FILE, "r")\<close> and the \<^verbatim>\<open>f.read()\<close> inside \<^verbatim>\<open>json.load\<close>.\<close>

definition read_text :: "data_file \<Rightarrow> exn + string" where
  "read_text f =
     (case f of
        Absent \<Rightarrow> Inl FileNotFoundError
      | Undecodable \<Rightarrow> Inl UnicodeDecodeError
      | Text s \<Rightarrow> Inr s)"

definition json_load :: "data_file \<Rightarrow> json outcome" where
  "json_load f =
     (case read_text f of
        Inl e \<Rightarrow> Raises e
      | Inr s \<Rightarrow>
          (case json_loads s of
             Inr v \<Rightarrow> Returns v
           | Inl Malformed \<Rightarrow> Raises JSONDecodeError
           | Inl _ \<Rightarrow> Not_covered))"

text \<open>\<^verbatim>\<open>load_tasks\<close>: the handler names \<^verbatim>\<open>json.JSONDecodeError\<close> and \<^verbatim>\<open>FileNotFoundError\<close>;
  any other exception passes to the caller.\<close>

definition load_tasks :: "data_file \<Rightarrow> json outcome" where
  "load_tasks f =
     (if f \<noteq> Absent then
        (case json_load f of
           Raises e \<Rightarrow>
             (if e \<in> {JSONDecodeError, FileNotFoundError} then Returns (JList []) else Raises e)
         | r \<Rightarrow> r)
      else Returns (JList []))"

section \<open>The values a file can give back\<close>

text \<open>A Python dictionary has each key once; the model's lists of pairs must say so. A
  string, as a value or as a key, is a text.\<close>

fun wf_json :: "json \<Rightarrow> bool" where
  "wf_json (JStr s) = valid_text s"
| "wf_json (JList xs) = (\<forall>x\<in>set xs. wf_json x)"
| "wf_json (JObj ms) =
     (distinct (map fst ms) \<and> (\<forall>m\<in>set ms. valid_text (fst m) \<and> wf_json (snd m)))"
| "wf_json _ = True"

text \<open>What may follow a value in the text that \<^verbatim>\<open>json.dump\<close> writes: a comma, a new
  line, or the end.\<close>

definition delim :: "string \<Rightarrow> bool" where
  "delim rest = (case rest of [] \<Rightarrow> True | c # _ \<Rightarrow> c = CHR '','' \<or> c = CHR 0x0A)"

text \<open>The characters a written value can begin with.\<close>

definition value_start :: "char \<Rightarrow> bool" where
  "value_start c = (is_digit c \<or> c \<in> {CHR ''n'', CHR ''t'', CHR ''f'', CHR ''-'', CHR ''['', CHR ''{'', CHR 0x22})"

text \<open>The Task shape: the keys are those of a task, each once; \<open>id\<close> is an integer,
  \<open>completed\<close> a boolean, the others are texts, \<open>task\<close> not empty and \<open>priority\<close> one of
  the three; \<open>due_date\<close> and \<open>notes\<close> may be missing.\<close>

fun field_ok :: "string \<Rightarrow> json \<Rightarrow> bool" where
  "field_ok k (JInt i) = (k = ''id'')"
| "field_ok k (JBool b) = (k = ''completed'')"
| "field_ok k (JStr s) =
     (valid_text s \<and>
      (k \<in> {''category'', ''due_date'', ''notes'', ''created_at''} \<or>
       (k = ''task'' \<and> s \<noteq> []) \<or>
       (k = ''priority'' \<and> s \<in> {''Low'', ''Medium'', ''High''})))"
| "field_ok k _ = False"

definition task_shape :: "dict \<Rightarrow> bool" where
  "task_shape d =
     (distinct (map fst d) \<and> list_all (\<lambda>m. field_ok (fst m) (snd m)) d \<and>
      list_all (\<lambda>k. k \<in> set (map fst d))
        [''id'', ''task'', ''category'', ''priority'', ''completed'', ''created_at''])"

section \<open>Sample states and inputs\<close>

definition empty_app :: app where
  "empty_app = \<lparr>heap = (\<lambda>_. []), fresh = 0, tasks = [], editing_task = None, data_file = Absent\<rparr>"

definition two_tasks :: app where
  "two_tasks =
     \<lparr>heap = (\<lambda>a. if a = 0 then [(''id'', JInt 1), (''task'', JStr ''a''), (''completed'', JBool False)]
               else if a = 1 then [(''id'', JInt 2), (''task'', JStr ''b''), (''completed'', JBool True)]
               else []),
      fresh = 2, tasks = [0, 1], editing_task = Some 1, data_file = Absent\<rparr>"

definition clock_at :: "int \<Rightarrow> datetime" where
  "clock_at us =
     \<lparr>year = 2023, month = 11, day = 14, hour = 22, minute = 13, second = 20,
      microsecond = nat (us mod 1000000), timestamp_us = us\<rparr>"

definition sample_form :: "string \<Rightarrow> add_form" where
  "sample_form t =
     \<lparr>form_task = t, form_category = ''General'', form_priority = High,
      form_due_date = \<lparr>year = 2023, month = 11, day = 20\<rparr>, form_notes = [], submitted = True\<rparr>"

definition sample_edit :: edit_form where
  "sample_edit =
     \<lparr>new_task = ''c'', new_category = ''Work'', new_priority = Low,
      new_due = \<lparr>year = 2024, month = 2, day = 9\<rparr>, save_changes = True, cancel = False\<rparr>"


text \<open>Two tasks in several scripts: a description in Japanese, a category with an accent,
  notes with an emoji, a quote, a backslash and a new line.\<close>

definition world_heap :: "addr \<Rightarrow> dict" where
  "world_heap a =
     (if a = 0 then
        [(''id'', JInt 1715335200),
         (''task'', JStr (CHR 0xE7 # CHR 0x89 # CHR 0x9B # CHR 0xE4 # CHR 0xB9 # CHR 0xB3 # '' x2'')),
         (''category'', JStr (''Caf'' @ [CHR 0xC3, CHR 0xA9])),
         (''priority'', JStr ''High''), (''due_date'', JStr ''2024-05-10''),
         (''notes'', JStr (CHR 0xF0 # CHR 0x9F # CHR 0x98 # CHR 0x80 # CHR 0x22 # CHR 0x5C # [CHR 0x0A])),
         (''completed'', JBool False), (''created_at'', JStr ''2024-05-01 09:00:00'')]
      else
        [(''id'', JInt 1715335260), (''task'', JStr ''Call Bob''), (''category'', JStr ''General''),
         (''priority'', JStr ''Low''), (''due_date'', JStr []), (''notes'', JStr []),
         (''completed'', JBool True), (''created_at'', JStr ''2024-05-01 09:01:00'')])"

definition world_app :: app where
  "world_app =
     \<lparr>heap = world_heap, fresh = 2, tasks = [0, 1], editing_task = None, data_file = Absent\<rparr>"


definition march_first :: date where
  "march_first = \<lparr>year = 2024, month = 3, day = 1\<rparr>"

definition due_task :: "string \<Rightarrow> dict" where
  "due_task s = [(''id'', JInt 7), (''task'', JStr ''Pay rent''), (''due_date'', JStr s),
                 (''completed'', JBool False)]"

definition may_tenth_10am :: datetime where
  "may_tenth_10am =
     \<lparr>year = 2024, month = 5, day = 10, hour = 10, minute = 0, second = 0, microsecond = 0,
      timestamp_us = 1715335200000000\<rparr>"



section \<open>Dictionaries\<close>

lemma dict_get_set_same: "dict_get (dict_set d k v) k = Some v"
  by (induction d) (auto simp: dict_get_def)

lemma dict_get_set_other: "k' \<noteq> k \<Longrightarrow> dict_get (dict_set d k v) k' = dict_get d k'"
  by (induction d) (auto simp: dict_get_def)

lemma keys_dict_set_present:
  "dict_get d k \<noteq> None \<Longrightarrow> map fst (dict_set d k v) = map fst d"
  by (induction d) (auto simp: dict_get_def)

section \<open>Adding\<close>

text \<open>
  C2. A submitted Add whose description is empty is rejected: the sidebar shows the
  validation error, and the state that comes back is the state that went in, so neither
  the task list nor the file has changed and nothing was saved.
\<close>

theorem add_empty_description_rejected:
  assumes "submitted f" and "form_task f = []"
  shows "main_add f now_id now_created s = (s, [Sidebar_error ''Task description is required!''])"
  using assms by (simp add: main_add_def add_task_form_def)

theorem add_empty_description_rejected_witness:
  "submitted (sample_form []) \<and> form_task (sample_form []) = [] \<and>
   main_add (sample_form []) (clock_at 1700000000200000) (clock_at 1700000000200000) empty_app
     = (empty_app, [Sidebar_error ''Task description is required!''])"
  using add_empty_description_rejected
    [of "sample_form []" "clock_at 1700000000200000" "clock_at 1700000000200000" empty_app]
  by (simp add: sample_form_def)

text \<open>
  C4. The id of a new task is the clock's timestamp cut to whole seconds. Two tasks added
  0.2 and 0.9 seconds after the same full second both get the id 1700000000: the ids of
  the list reached are not pairwise distinct.
\<close>

theorem ids_collide_within_one_second:
  "task_ids (fst (main_add (sample_form ''b'') (clock_at 1700000000900000) (clock_at 1700000000900000)
      (fst (main_add (sample_form ''a'') (clock_at 1700000000200000) (clock_at 1700000000200000)
         empty_app))))
   = [Some (JInt 1700000000), Some (JInt 1700000000)]"
  by (simp add: main_add_def add_task_form_def sample_form_def clock_at_def empty_app_def
      task_ids_def dict_get_def int_timestamp_def save_tasks_def Let_def)

section \<open>Completing and editing\<close>

text \<open>
  C10. When the checkbox of a task differs from its \<open>completed\<close> value, the step sets
  \<open>completed\<close> of that task to the checkbox's value and changes nothing else: every other
  key of the task keeps its value, every other object of the store is as before, the task
  list holds the same references in the same order, and the file then holds the dump of
  the whole list.
\<close>

theorem toggle_complete_frame:
  assumes "\<not> bool_eq done (get_completed (heap s a))"
  shows "\<exists>s'. toggle_complete a done s = (s', True) \<and>
     dict_get (heap s' a) ''completed'' = Some (JBool done) \<and>
     (\<forall>k. k \<noteq> ''completed'' \<longrightarrow> dict_get (heap s' a) k = dict_get (heap s a) k) \<and>
     (\<forall>b. b \<noteq> a \<longrightarrow> heap s' b = heap s b) \<and>
     tasks s' = tasks s \<and> editing_task s' = editing_task s \<and>
     data_file s' = Text (json_dumps (task_values s' (tasks s')))"
  using assms
  by (simp add: toggle_complete_def Let_def save_tasks_def task_values_def
      dict_get_set_same dict_get_set_other)

theorem toggle_complete_frame_witness:
  "\<not> bool_eq True (get_completed (heap two_tasks 0)) \<and>
   (\<exists>s'. toggle_complete 0 True two_tasks = (s', True) \<and>
     dict_get (heap s' 0) ''completed'' = Some (JBool True) \<and>
     dict_get (heap s' 0) ''id'' = Some (JInt 1) \<and>
     heap s' 1 = heap two_tasks 1 \<and> tasks s' = [0, 1])"
proof -
  have h: "\<not> bool_eq True (get_completed (heap two_tasks 0))"
    by (simp add: two_tasks_def get_completed_def dict_get_def)
  from toggle_complete_frame [OF h] obtain s' where
    s': "toggle_complete 0 True two_tasks = (s', True)"
      "dict_get (heap s' 0) ''completed'' = Some (JBool True)"
      "\<forall>k. k \<noteq> ''completed'' \<longrightarrow> dict_get (heap s' 0) k = dict_get (heap two_tasks 0) k"
      "\<forall>b. b \<noteq> 0 \<longrightarrow> heap s' b = heap two_tasks b"
      "tasks s' = tasks two_tasks"
    by blast
  have "dict_get (heap s' 0) ''id'' = Some (JInt 1)"
    using s'(3) by (simp add: two_tasks_def dict_get_def)
  moreover have "heap s' 1 = heap two_tasks 1" using s'(4) by simp
  moreover have "tasks s' = [0, 1]" using s'(5) by (simp add: two_tasks_def)
  ultimately show ?thesis using h s'(1,2) by blast
qed

text \<open>
  C7. Saving an edit replaces the values of \<open>task\<close>, \<open>category\<close>, \<open>priority\<close> and \<open>due_date\<close>
  of the task being edited and of no other key: \<open>id\<close>, \<open>created_at\<close> and \<open>completed\<close> (and
  \<open>notes\<close>) keep their values. No other object changes, the list keeps its references, and
  the file then holds the dump of the list.
\<close>

theorem edit_replaces_four_fields:
  assumes "editing_task s = Some a"
    and "dict_get (heap s a) ''task'' \<noteq> None"
    and "(case dict_get (heap s a) ''priority'' of None \<Rightarrow> JStr ''Medium'' | Some p \<Rightarrow> p)
           \<in> set (map JStr [''Low'', ''Medium'', ''High''])"
    and "save_changes f"
  shows "\<exists>s'. edit_task_form f s = Inr s' \<and>
     dict_get (heap s' a) ''task'' = Some (JStr (new_task f)) \<and>
     dict_get (heap s' a) ''category'' = Some (JStr (new_category f)) \<and>
     dict_get (heap s' a) ''priority'' = Some (JStr (priority_str (new_priority f))) \<and>
     dict_get (heap s' a) ''due_date'' = Some (JStr (strftime_ymd (new_due f))) \<and>
     (\<forall>k. k \<notin> {''task'', ''category'', ''priority'', ''due_date''} \<longrightarrow>
          dict_get (heap s' a) k = dict_get (heap s a) k) \<and>
     (\<forall>b. b \<noteq> a \<longrightarrow> heap s' b = heap s b) \<and>
     tasks s' = tasks s \<and>
     data_file s' = Text (json_dumps (task_values s' (tasks s')))"
  using assms
  by (simp add: edit_task_form_def Let_def save_tasks_def task_values_def
      dict_get_set_same dict_get_set_other)

theorem edit_replaces_four_fields_witness:
  "editing_task two_tasks = Some 1 \<and>
   dict_get (heap two_tasks 1) ''task'' \<noteq> None \<and>
   save_changes sample_edit \<and>
   (\<exists>s'. edit_task_form sample_edit two_tasks = Inr s' \<and>
      dict_get (heap s' 1) ''task'' = Some (JStr ''c'') \<and>
      dict_get (heap s' 1) ''id'' = Some (JInt 2) \<and>
      dict_get (heap s' 1) ''completed'' = Some (JBool True) \<and>
      dict_get (heap s' 1) ''created_at'' = None \<and>
      heap s' 0 = heap two_tasks 0)"
proof -
  have h1: "editing_task two_tasks = Some 1" by (simp add: two_tasks_def)
  have h2: "dict_get (heap two_tasks 1) ''task'' \<noteq> None"
    by (simp add: two_tasks_def dict_get_def)
  have h3: "(case dict_get (heap two_tasks 1) ''priority'' of None \<Rightarrow> JStr ''Medium'' | Some p \<Rightarrow> p)
           \<in> set (map JStr [''Low'', ''Medium'', ''High''])"
    by (simp add: two_tasks_def dict_get_def)
  have h4: "save_changes sample_edit" by (simp add: sample_edit_def)
  from edit_replaces_four_fields [OF h1 h2 h3 h4] obtain s' where
    s': "edit_task_form sample_edit two_tasks = Inr s'"
      "dict_get (heap s' 1) ''task'' = Some (JStr (new_task sample_edit))"
      "\<forall>k. k \<notin> {''task'', ''category'', ''priority'', ''due_date''} \<longrightarrow>
          dict_get (heap s' 1) k = dict_get (heap two_tasks 1) k"
      "\<forall>b. b \<noteq> 1 \<longrightarrow> heap s' b = heap two_tasks b"
    by blast
  have "dict_get (heap s' 1) ''id'' = Some (JInt 2)"
    using s'(3) by (simp add: two_tasks_def dict_get_def)
  moreover have "dict_get (heap s' 1) ''completed'' = Some (JBool True)"
    using s'(3) by (simp add: two_tasks_def dict_get_def)
  moreover have "dict_get (heap s' 1) ''created_at'' = None"
    using s'(3) by (simp add: two_tasks_def dict_get_def)
  moreover have "heap s' 0 = heap two_tasks 0" using s'(4) by simp
  moreover have "dict_get (heap s' 1) ''task'' = Some (JStr ''c'')"
    using s'(2) by (simp add: sample_edit_def)
  ultimately show ?thesis using h1 h2 h4 s'(1) by blast
qed

section \<open>Filtering\<close>








section \<open>Due dates\<close>

text \<open>The digits of a year, and the second digit of a day, can be of any script: the year
  2024 in fullwidth digits, the day 13 with an Arabic-Indic three.\<close>

lemma strptime_ymd_other_digits:
  "strptime_ymd ([CHR 0xEF, CHR 0xBC, CHR 0x92, CHR 0xEF, CHR 0xBC, CHR 0x90, CHR 0xEF, CHR 0xBC,
                  CHR 0x92, CHR 0xEF, CHR 0xBC, CHR 0x94] @ ''-05-1'' @ [CHR 0xD9, CHR 0xA3])
     = Some \<lparr>year = 2024, month = 5, day = 13\<rparr>"
  by (simp add: strptime_ymd_def year_token_def take_decimal_def next_cp_def decimal_value_def
        decimal_zeros_def valid_date_def days_in_month_def is_leap_def is_digit_def digit_val_def
        is_cont_def cont_val_def)

lemma strptime_ymd_empty: "strptime_ymd [] = None"
  by (simp add: strptime_ymd_def year_token_def take_decimal_def next_cp_def)

text \<open>
  C6. With \<open>days_left\<close> the number of days from today to a due date that reads as a date,
  the row's note is: overdue by \<open>- days_left\<close> days when \<open>days_left\<close> is negative, due today
  when it is zero, \<open>days_left\<close> days left when it is positive. A task without \<open>due_date\<close>,
  or with one that does not read as a date, gets no note; the function has no error
  result, whatever the task holds.
\<close>

theorem due_note_classification:
  "(dict_get t ''due_date'' = Some (JStr s) \<and> strptime_ymd s = Some due \<longrightarrow>
      due_note today t =
        Some (if days_between due today < 0 then Overdue_by (- days_between due today)
              else if days_between due today = 0 then Due_today
              else Days_left (days_between due today))) \<and>
   (dict_get t ''due_date'' = None \<longrightarrow> due_note today t = None) \<and>
   (dict_get t ''due_date'' = Some (JStr s) \<and> strptime_ymd s = None \<longrightarrow> due_note today t = None)"
proof -
  have "s \<noteq> []" if "strptime_ymd s = Some due"
    using that strptime_ymd_empty by auto
  then show ?thesis
    by (auto simp: due_note_def Let_def)
qed

theorem due_note_classification_witness:
  "due_note march_first (due_task ''2024-02-29'') = Some (Overdue_by 1) \<and>
   due_note march_first (due_task ''2024-03-01'') = Some Due_today \<and>
   due_note march_first (due_task ''2024-03-02'') = Some (Days_left 1) \<and>
   due_note march_first (due_task ''tomorrow'') = None \<and>
   due_note march_first [(''task'', JStr ''x'')] = None"
proof -
  have g: "\<And>s. dict_get (due_task s) ''due_date'' = Some (JStr s)"
    by (simp add: due_task_def dict_get_def)
  have p1: "strptime_ymd ''2024-02-29'' = Some \<lparr>year = 2024, month = 2, day = 29\<rparr>"
    and p2: "strptime_ymd ''2024-03-01'' = Some \<lparr>year = 2024, month = 3, day = 1\<rparr>"
    and p3: "strptime_ymd ''2024-03-02'' = Some \<lparr>year = 2024, month = 3, day = 2\<rparr>"
    and p4: "strptime_ymd ''tomorrow'' = None"
    by (simp_all add: strptime_ymd_def year_token_def take_decimal_def next_cp_def
          decimal_value_def decimal_zeros_def valid_date_def days_in_month_def is_leap_def
          is_digit_def digit_val_def)
  have d1: "days_between \<lparr>year = 2024, month = 2, day = 29\<rparr> march_first = - 1"
    and d2: "days_between \<lparr>year = 2024, month = 3, day = 1\<rparr> march_first = 0"
    and d3: "days_between \<lparr>year = 2024, month = 3, day = 2\<rparr> march_first = 1"
    by (simp_all add: days_between_def toordinal_def days_before_year_def days_before_month_def
        is_leap_def march_first_def)
  have "due_note march_first (due_task ''2024-02-29'') = Some (Overdue_by 1)"
    using due_note_classification [of "due_task ''2024-02-29''" "''2024-02-29''" _ march_first] g p1 d1
    by simp
  moreover have "due_note march_first (due_task ''2024-03-01'') = Some Due_today"
    using due_note_classification [of "due_task ''2024-03-01''" "''2024-03-01''" _ march_first] g p2 d2
    by simp
  moreover have "due_note march_first (due_task ''2024-03-02'') = Some (Days_left 1)"
    using due_note_classification [of "due_task ''2024-03-02''" "''2024-03-02''" _ march_first] g p3 d3
    by simp
  moreover have "due_note march_first (due_task ''tomorrow'') = None"
    using due_note_classification [of "due_task ''tomorrow''" "''tomorrow''" _ march_first] g p4
    by simp
  moreover have "due_note march_first [(''task'', JStr ''x'')] = None"
    using due_note_classification [of "[(''task'', JStr ''x'')]" _ _ march_first]
    by (simp add: dict_get_def)
  ultimately show ?thesis by simp
qed

section \<open>The summary\<close>

lemma completed_column_booleans:
  assumes "\<forall>t\<in>set ts. \<exists>b. dict_get t ''completed'' = Some (JBool b)"
  shows "completed_column ts = Some (map (\<lambda>t. dict_get t ''completed'' = Some (JBool True)) ts)"
  using assms unfolding completed_column_def
  by (induction ts) auto

text \<open>
  C9. For a list that is not empty and whose tasks all carry a boolean \<open>completed\<close>, the
  rate shown is the number of completed tasks divided by the number of tasks, times 100;
  for the empty list no rate is computed, only the note that there is nothing to show.
  (The fraction is exact here; the program computes it in binary floating point and
  prints one decimal.)
\<close>

theorem completion_rate_formula:
  "(completion_rate [] = No_tasks) \<and>
   (ts \<noteq> [] \<and> (\<forall>t\<in>set ts. \<exists>b. dict_get t ''completed'' = Some (JBool b)) \<longrightarrow>
      completion_rate ts =
        Rate (of_nat (length (filter (\<lambda>t. dict_get t ''completed'' = Some (JBool True)) ts))
                / of_nat (length ts) * 100))"
proof -
  have "completion_rate ts =
        Rate (of_nat (length (filter (\<lambda>t. dict_get t ''completed'' = Some (JBool True)) ts))
                / of_nat (length ts) * 100)"
    if ne: "ts \<noteq> []" and b: "\<forall>t\<in>set ts. \<exists>b. dict_get t ''completed'' = Some (JBool b)"
  proof -
    obtain t where "t \<in> set ts" using ne by (cases ts) auto
    then have "\<not> (\<forall>t\<in>set ts. dict_get t ''completed'' = None)" using b by fastforce
    moreover have "length (filter (\<lambda>b. b) (map (\<lambda>t. dict_get t ''completed'' = Some (JBool True)) ts))
        = length (filter (\<lambda>t. dict_get t ''completed'' = Some (JBool True)) ts)"
      by (induction ts) auto
    ultimately show ?thesis
      using ne completed_column_booleans [OF b] by (simp add: completion_rate_def)
  qed
  moreover have "completion_rate [] = No_tasks" by (simp add: completion_rate_def)
  ultimately show ?thesis by blast
qed

theorem completion_rate_formula_witness:
  "completion_rate [] = No_tasks \<and>
   completion_rate [due_task ''2024-05-10'', [(''task'', JStr ''b''), (''completed'', JBool True)]]
     = Rate 50"
proof -
  let ?ts = "[due_task ''2024-05-10'', [(''task'', JStr ''b''), (''completed'', JBool True)]]"
  have h: "?ts \<noteq> [] \<and> (\<forall>t\<in>set ?ts. \<exists>b. dict_get t ''completed'' = Some (JBool b))"
    by (auto simp: due_task_def dict_get_def)
  have "completion_rate ?ts =
        Rate (of_nat (length (filter (\<lambda>t. dict_get t ''completed'' = Some (JBool True)) ?ts))
                / of_nat (length ?ts) * 100)"
    using completion_rate_formula [of ?ts] h by blast
  then have "completion_rate ?ts = Rate 50"
    by (simp add: due_task_def dict_get_def)
  then show ?thesis using completion_rate_formula [of ?ts] by blast
qed

text \<open>
  C5. At ten in the morning of 10 May 2024 an open task due that same day is counted as
  \<open>Overdue\<close> in the chart, although it is zero days away and its row in the list reads
  due today; an open task due on 14 May, four days away, is counted as \<open>Due_Soon\<close>. The
  chart subtracts the clock's reading with its time of day from the midnight of the due
  date and rounds down, which is one day less than the difference of the dates whenever
  the time is past midnight.
\<close>

theorem chart_buckets_shift_with_time_of_day:
  "pending_statuses may_tenth_10am [due_task ''2024-05-10'', due_task ''2024-05-14'']
     = Some [Overdue, Due_Soon] \<and>
   due_note may_tenth_10am (due_task ''2024-05-10'') = Some Due_today \<and>
   days_between \<lparr>year = 2024, month = 5, day = 10\<rparr> may_tenth_10am = 0 \<and>
   days_between \<lparr>year = 2024, month = 5, day = 14\<rparr> may_tenth_10am = 4"
proof -
  have p: "strptime_ymd ''2024-05-10'' = Some \<lparr>year = 2024, month = 5, day = 10\<rparr>"
    "strptime_ymd ''2024-05-14'' = Some \<lparr>year = 2024, month = 5, day = 14\<rparr>"
    by (simp_all add: strptime_ymd_def year_token_def take_decimal_def next_cp_def
          decimal_value_def decimal_zeros_def valid_date_def days_in_month_def is_leap_def
          is_digit_def digit_val_def)
  have d: "days_between \<lparr>year = 2024, month = 5, day = 10\<rparr> may_tenth_10am = 0"
    "days_between \<lparr>year = 2024, month = 5, day = 14\<rparr> may_tenth_10am = 4"
    by (simp_all add: days_between_def toordinal_def days_before_year_def days_before_month_def
        is_leap_def may_tenth_10am_def)
  have t: "time_of_day_us may_tenth_10am = 36000000000"
    by (simp add: time_of_day_us_def may_tenth_10am_def)
  have u: "days_until_due \<lparr>year = 2024, month = 5, day = 10\<rparr> may_tenth_10am = - 1"
    "days_until_due \<lparr>year = 2024, month = 5, day = 14\<rparr> may_tenth_10am = 3"
    by (simp_all add: days_until_due_def d t)
  have "pending_statuses may_tenth_10am [due_task ''2024-05-10'', due_task ''2024-05-14'']
     = Some [Overdue, Due_Soon]"
    by (simp add: pending_statuses_def completed_column_def to_datetime_cell_def iso_date_def
        due_task_def dict_get_def p u row_status_def)
  moreover have "due_note may_tenth_10am (due_task ''2024-05-10'') = Some Due_today"
    by (simp add: due_note_def due_task_def dict_get_def p d)
  ultimately show ?thesis using d by simp
qed

section \<open>Loading\<close>

lemma load_tasks_absent: "load_tasks Absent = Returns (JList [])"
  by (simp add: load_tasks_def)

lemma load_tasks_malformed:
  "json_loads s = Inl Malformed \<Longrightarrow> load_tasks (Text s) = Returns (JList [])"
  by (simp add: load_tasks_def json_load_def read_text_def)

lemma load_tasks_parsed:
  "json_loads s = Inr v \<Longrightarrow> load_tasks (Text s) = Returns v"
  by (simp add: load_tasks_def json_load_def read_text_def)

text \<open>
  C3. For a file whose bytes are not text in the default encoding, reading raises
  \<^verbatim>\<open>UnicodeDecodeError\<close>, the handler does not name it, and \<^verbatim>\<open>load_tasks\<close> raises to
  its caller instead of returning the empty list.
\<close>

theorem load_tasks_raises_on_undecodable_file:
  "load_tasks Undecodable = Raises UnicodeDecodeError"
  by (simp add: load_tasks_def json_load_def read_text_def)

section \<open>Reading back what was written\<close>

subsection \<open>Text and its bytes\<close>

lemma char_is_code: "(c = d) = ((of_char c :: nat) = of_char d)"
  by simp

lemma div_mod_64:
  fixes x y :: nat
  assumes "y < 64"
  shows "(x * 64 + y) div 64 = x" "(x * 64 + y) mod 64 = y"
  using assms by simp_all

lemma utf8_two:
  assumes "2 \<le> p" "p < 32" "q < 64"
  shows "utf8_encode (p * 64 + q) = [char_of (192 + p), char_of (128 + q)]"
proof -
  define n where "n = p * 64 + q"
  have n: "128 \<le> n" "n < 2048" using assms unfolding n_def by arith+
  have d1: "n div 64 = p" unfolding n_def by (rule div_mod_64(1) [OF assms(3)])
  have d2: "n mod 64 = q" unfolding n_def by (rule div_mod_64(2) [OF assms(3)])
  have "utf8_encode n = [char_of (192 + p), char_of (128 + q)]"
    using n by (simp add: utf8_encode_def d1 d2)
  then show ?thesis unfolding n_def .
qed

lemma utf8_three:
  assumes "p < 16" "q < 64" "r < 64" "2048 \<le> (p * 64 + q) * 64 + r"
  shows "utf8_encode ((p * 64 + q) * 64 + r)
           = [char_of (224 + p), char_of (128 + q), char_of (128 + r)]"
proof -
  define m where "m = p * 64 + q"
  define n where "n = m * 64 + r"
  have m: "m < 1024" using assms(1,2) unfolding m_def by arith
  have n: "2048 \<le> n" using assms(4) unfolding n_def m_def .
  have n': "n < 65536" using m assms(3) unfolding n_def by arith
  have d1: "n div 64 = m" unfolding n_def by (rule div_mod_64(1) [OF assms(3)])
  have d2: "n mod 64 = r" unfolding n_def by (rule div_mod_64(2) [OF assms(3)])
  have "n div 4096 = n div (64 * 64)" by simp
  also have "\<dots> = n div 64 div 64" by (rule div_mult2_eq)
  finally have "n div 4096 = m div 64" unfolding d1 .
  then have d3: "n div 4096 = p" unfolding m_def using div_mod_64(1) [OF assms(2)] by simp
  have d4: "n div 64 mod 64 = q" unfolding d1 m_def by (rule div_mod_64(2) [OF assms(2)])
  have "\<not> n < 128" "\<not> n < 2048" using n by simp_all
  then have "utf8_encode n = [char_of (224 + p), char_of (128 + q), char_of (128 + r)]"
    using n' unfolding utf8_encode_def d2 d3 d4 by simp
  then show ?thesis unfolding n_def m_def .
qed

lemma utf8_four:
  assumes "q < 64" "r < 64" "t < 64" "65536 \<le> ((p * 64 + q) * 64 + r) * 64 + t"
  shows "utf8_encode (((p * 64 + q) * 64 + r) * 64 + t)
           = [char_of (240 + p), char_of (128 + q), char_of (128 + r), char_of (128 + t)]"
proof -
  define l where "l = p * 64 + q"
  define m where "m = l * 64 + r"
  define n where "n = m * 64 + t"
  have n: "65536 \<le> n" using assms(4) unfolding n_def m_def l_def .
  have d1: "n div 64 = m" unfolding n_def by (rule div_mod_64(1) [OF assms(3)])
  have d2: "n mod 64 = t" unfolding n_def by (rule div_mod_64(2) [OF assms(3)])
  have e1: "m div 64 = l" unfolding m_def by (rule div_mod_64(1) [OF assms(2)])
  have d4: "n div 64 mod 64 = r" unfolding d1 m_def by (rule div_mod_64(2) [OF assms(2)])
  have "n div 4096 = n div (64 * 64)" by simp
  also have "\<dots> = n div 64 div 64" by (rule div_mult2_eq)
  finally have d3: "n div 4096 = l" unfolding d1 e1 .
  have d6: "n div 4096 mod 64 = q" unfolding d3 l_def by (rule div_mod_64(2) [OF assms(1)])
  have "n div 262144 = n div (4096 * 64)" by simp
  also have "\<dots> = n div 4096 div 64" by (rule div_mult2_eq)
  finally have "n div 262144 = l div 64" unfolding d3 .
  then have d5: "n div 262144 = p" unfolding l_def using div_mod_64(1) [OF assms(1)] by simp
  have "\<not> n < 128" "\<not> n < 2048" "\<not> n < 65536" using n by simp_all
  then have "utf8_encode n
      = [char_of (240 + p), char_of (128 + q), char_of (128 + r), char_of (128 + t)]"
    unfolding utf8_encode_def d2 d4 d5 d6 by simp
  then show ?thesis unfolding n_def m_def l_def .
qed

lemma cont_byte: "is_cont b \<Longrightarrow> cont_val b < 64 \<and> char_of (128 + cont_val b) = b"
  unfolding is_cont_def cont_val_def by (auto simp: less_diff_conv2)

lemma next_cp_cases:
  assumes "next_cp s = Some (n, r)"
  obtains
    (one) a where "s = a # r" "n = of_char a" "n < 128"
  | (two) a b where "s = a # b # r" "194 \<le> (of_char a :: nat)" "(of_char a :: nat) < 224"
      "is_cont b" "n = (of_char a - 192) * 64 + cont_val b"
  | (three) a b c where "s = a # b # c # r" "224 \<le> (of_char a :: nat)" "(of_char a :: nat) < 240"
      "is_cont b" "is_cont c" "n = ((of_char a - 224) * 64 + cont_val b) * 64 + cont_val c"
      "2048 \<le> n"
  | (four) a b c d where "s = a # b # c # d # r" "240 \<le> (of_char a :: nat)"
      "(of_char a :: nat) < 245" "is_cont b" "is_cont c" "is_cont d"
      "n = (((of_char a - 240) * 64 + cont_val b) * 64 + cont_val c) * 64 + cont_val d"
      "65536 \<le> n" "n < 1114112"
proof (cases s)
  case Nil
  then show ?thesis using assms by (simp add: next_cp_def)
next
  case (Cons a t)
  define x where "x = (of_char a :: nat)"
  consider (c1) "x < 128" | (c2) "194 \<le> x" "x < 224" | (c3) "224 \<le> x" "x < 240"
    | (c4) "240 \<le> x" "x < 245" | (none) "128 \<le> x" "x < 194" | (high) "245 \<le> x"
    by linarith
  then show ?thesis
  proof cases
    case c1
    then show ?thesis using assms Cons one [of a]
      by (auto simp: next_cp_def Let_def x_def [symmetric])
  next
    case c2
    then obtain b r1 where "t = b # r1" "is_cont b" "n = (x - 192) * 64 + cont_val b" "r = r1"
      using assms Cons
      by (auto simp: next_cp_def Let_def x_def [symmetric] split: list.splits if_splits)
    then show ?thesis using two [of a b] c2 Cons by (simp add: x_def)
  next
    case c3
    then obtain b c r2 where "t = b # c # r2" "is_cont b" "is_cont c"
        "n = ((x - 224) * 64 + cont_val b) * 64 + cont_val c" "2048 \<le> n" "r = r2"
      using assms Cons
      by (auto simp: next_cp_def Let_def x_def [symmetric] split: list.splits if_splits)
    then show ?thesis using three [of a b c] c3 Cons by (simp add: x_def)
  next
    case c4
    then obtain b c d r3 where "t = b # c # d # r3" "is_cont b" "is_cont c" "is_cont d"
        "n = (((x - 240) * 64 + cont_val b) * 64 + cont_val c) * 64 + cont_val d"
        "65536 \<le> n" "n < 1114112" "r = r3"
      using assms Cons
      by (auto simp: next_cp_def Let_def x_def [symmetric] split: list.splits if_splits)
    then show ?thesis using four [of a b c d] c4 Cons by (simp add: x_def)
  next
    case none
    then show ?thesis using assms Cons by (simp add: next_cp_def Let_def x_def [symmetric])
  next
    case high
    then show ?thesis using assms Cons by (simp add: next_cp_def Let_def x_def [symmetric])
  qed
qed

lemma next_cp_bytes:
  assumes "next_cp s = Some (n, r)"
  shows "s = utf8_encode n @ r"
  using assms
proof (cases rule: next_cp_cases)
  case (one a)
  then show ?thesis by (simp add: utf8_encode_def)
next
  case (two a b)
  have "2 \<le> (of_char a :: nat) - 192" "(of_char a :: nat) - 192 < 32" using two(2,3) by arith+
  then have "utf8_encode n = [char_of (192 + (of_char a - 192 :: nat)), char_of (128 + cont_val b)]"
    unfolding two(5) using cont_byte [OF two(4)] by (intro utf8_two) simp_all
  moreover have "192 + (of_char a - 192 :: nat) = of_char a" using two(2) by arith
  ultimately show ?thesis using two(1) cont_byte [OF two(4)] by simp
next
  case (three a b c)
  have "(of_char a :: nat) - 224 < 16" using three(2,3) by arith
  then have "utf8_encode n = [char_of (224 + (of_char a - 224 :: nat)),
      char_of (128 + cont_val b), char_of (128 + cont_val c)]"
    unfolding three(6) using cont_byte [OF three(4)] cont_byte [OF three(5)] three(7)
    by (intro utf8_three) (simp_all add: three(6))
  moreover have "224 + (of_char a - 224 :: nat) = of_char a" using three(2) by arith
  ultimately show ?thesis
    using three(1) cont_byte [OF three(4)] cont_byte [OF three(5)] by simp
next
  case (four a b c d)
  have "utf8_encode n = [char_of (240 + (of_char a - 240 :: nat)),
      char_of (128 + cont_val b), char_of (128 + cont_val c), char_of (128 + cont_val d)]"
    unfolding four(7)
    using cont_byte [OF four(4)] cont_byte [OF four(5)] cont_byte [OF four(6)] four(8)
    by (intro utf8_four) (simp_all add: four(7))
  moreover have "240 + (of_char a - 240 :: nat) = of_char a" using four(2) by arith
  ultimately show ?thesis
    using four(1) cont_byte [OF four(4)] cont_byte [OF four(5)] cont_byte [OF four(6)] by simp
qed

lemma next_cp_range:
  assumes "next_cp s = Some (n, r)"
  shows "n < 1114112"
  using assms
proof (cases rule: next_cp_cases)
  case (one a)
  then show ?thesis by simp
next
  case (two a b)
  define p where "p = (of_char a :: nat) - 192"
  have "p < 32" using two(3) unfolding p_def by arith
  then have "p * 64 + cont_val b < 2048" using cont_byte [OF two(4)] by arith
  then have "n < 2048" unfolding two(5) p_def .
  then show ?thesis by simp
next
  case (three a b c)
  define p where "p = (of_char a :: nat) - 224"
  define m where "m = p * 64 + cont_val b"
  have "p < 16" using three(3) unfolding p_def by arith
  then have "m < 1024" using cont_byte [OF three(4)] unfolding m_def by arith
  then have "m * 64 + cont_val c < 65536" using cont_byte [OF three(5)] by arith
  then have "n < 65536" unfolding three(6) m_def p_def .
  then show ?thesis by simp
next
  case (four a b c d)
  then show ?thesis by simp
qed

lemma code_points_bytes:
  "code_points s = Some ns \<Longrightarrow> s = concat (map utf8_encode ns) \<and> list_all (\<lambda>n. n < 1114112) ns"
proof (induction s arbitrary: ns rule: code_points.induct)
  case 1
  then show ?case by simp
next
  case (2 a r)
  then obtain n r' ms where c: "next_cp (a # r) = Some (n, r')"
      and m: "code_points r' = Some ms" and ns: "ns = n # ms"
    by (auto split: option.splits)
  have "r' = concat (map utf8_encode ms) \<and> list_all (\<lambda>n. n < 1114112) ms"
    using "2.IH" [OF c refl m] .
  then show ?case using next_cp_bytes [OF c] next_cp_range [OF c] ns by simp
qed

subsection \<open>Strings\<close>

lemma hex_val_hex_char: "d < 16 \<Longrightarrow> hex_val (hex_char d) = Some d"
  by (auto simp: hex_val_def hex_char_def Let_def)

lemma hex_digits:
  fixes n :: nat
  shows "((n div 4096 * 16 + n div 256 mod 16) * 16 + n div 16 mod 16) * 16 + n mod 16 = n"
proof -
  define k1 where "k1 = n div 16"
  define k2 where "k2 = k1 div 16"
  define k3 where "k3 = k2 div 16"
  have "n div 256 = n div (16 * 16)" by simp
  also have "\<dots> = k2" unfolding k2_def k1_def by (rule div_mult2_eq)
  finally have a: "n div 256 = k2" .
  have "n div 4096 = n div (256 * 16)" by simp
  also have "\<dots> = n div 256 div 16" by (rule div_mult2_eq)
  finally have b: "n div 4096 = k3" unfolding a k3_def .
  have "k3 * 16 + k2 mod 16 = k2" unfolding k3_def by (rule div_mult_mod_eq)
  moreover have "k2 * 16 + k1 mod 16 = k1" unfolding k2_def by (rule div_mult_mod_eq)
  moreover have "k1 * 16 + n mod 16 = n" unfolding k1_def by (rule div_mult_mod_eq)
  ultimately show ?thesis unfolding a b k1_def [symmetric] by simp
qed

lemma hex4_val_hex4:
  assumes "n < 65536"
  shows "hex4_val (hex_char (n div 4096)) (hex_char (n div 256 mod 16))
           (hex_char (n div 16 mod 16)) (hex_char (n mod 16)) = Some n"
proof -
  have "n div 4096 < 16" using assms by arith
  then have h: "hex_val (hex_char (n div 4096)) = Some (n div 4096)"
    "hex_val (hex_char (n div 256 mod 16)) = Some (n div 256 mod 16)"
    "hex_val (hex_char (n div 16 mod 16)) = Some (n div 16 mod 16)"
    "hex_val (hex_char (n mod 16)) = Some (n mod 16)"
    by (simp_all add: hex_val_hex_char)
  show ?thesis unfolding hex4_val_def h by (simp only: prod.case option.case hex_digits)
qed

lemma char_of_escaped:
  "char_of (34::nat) = CHR 0x22" "char_of (92::nat) = CHR 0x5C" "char_of (10::nat) = CHR 0x0A"
  "char_of (13::nat) = CHR 0x0D" "char_of (9::nat) = CHR 0x09" "char_of (8::nat) = CHR 0x08"
  "char_of (12::nat) = CHR 0x0C"
  by (simp_all add: char_is_code)

lemma short4:
  "length r < 4 \<Longrightarrow> (case r of h1 # h2 # h3 # h4 # r1 \<Rightarrow> f h1 h2 h3 h4 r1 | _ \<Rightarrow> d) = d"
  by (auto split: list.split)

lemma long4: "\<not> length r < 4 \<Longrightarrow> \<exists>h1 h2 h3 h4 r1. r = h1 # h2 # h3 # h4 # r1"
  by (auto simp: not_less eval_nat_numeral Suc_le_length_iff)

lemma short6:
  "length r < 6 \<Longrightarrow>
   (case r of h1 # h2 # h3 # h4 # h5 # h6 # r1 \<Rightarrow> f h1 h2 h3 h4 h5 h6 r1 | _ \<Rightarrow> d) = d"
  by (auto split: list.split)

lemma long6:
  "\<not> length r < 6 \<Longrightarrow> \<exists>h1 h2 h3 h4 h5 h6 r1. r = h1 # h2 # h3 # h4 # h5 # h6 # r1"
  by (auto simp: not_less eval_nat_numeral Suc_le_length_iff)

text \<open>What follows the escape of a high surrogate decides whether it is joined.\<close>

lemma scanstring_high:
  assumes "hex4_val h1 h2 h3 h4 = Some uni" "high_surrogate uni"
  shows "scanstring (CHR 0x5C # CHR ''u'' # h1 # h2 # h3 # h4 # r1) =
     (case r1 of
        b # u # g1 # g2 # g3 # g4 # r2 \<Rightarrow>
          (if b = CHR 0x5C \<and> u = CHR ''u'' then
             (case hex4_val g1 g2 g3 g4 of
                None \<Rightarrow> Inl Malformed
              | Some uni2 \<Rightarrow>
                  (if low_surrogate uni2 then
                     put_text (utf8_encode (65536 + (uni - 55296) * 1024 + (uni2 - 56320)))
                       (scanstring r2)
                   else put_text (utf8_encode uni) (scanstring r1)))
           else put_text (utf8_encode uni) (scanstring r1))
      | _ \<Rightarrow> put_text (utf8_encode uni) (scanstring r1))"
  using assms by simp

lemma scanstring_lone_high:
  assumes "hex4_val h1 h2 h3 h4 = Some uni" "high_surrogate uni" "no_low_escape r1"
  shows "scanstring (CHR 0x5C # CHR ''u'' # h1 # h2 # h3 # h4 # r1)
           = put_text (utf8_encode uni) (scanstring r1)"
proof (cases "length r1 < 6")
  case True
  show ?thesis unfolding scanstring_high [OF assms(1,2)] by (simp add: short6 [OF True])
next
  case False
  then obtain b u g1 g2 g3 g4 r2 where r1: "r1 = b # u # g1 # g2 # g3 # g4 # r2"
    using long6 by blast
  show ?thesis
  proof (cases "b = CHR 0x5C \<and> u = CHR ''u''")
    case True
    then obtain k where "hex4_val g1 g2 g3 g4 = Some k" "\<not> low_surrogate k"
      using assms(3) r1 unfolding no_low_escape_def by blast
    then show ?thesis unfolding scanstring_high [OF assms(1,2)] r1 using True by simp
  next
    case False
    then show ?thesis unfolding scanstring_high [OF assms(1,2)] r1 by auto
  qed
qed

lemma scanstring_escape_u:
  assumes "n < 65536" "high_surrogate n \<longrightarrow> no_low_escape t"
  shows "scanstring (CHR 0x5C # CHR ''u'' # hex4 n @ t) = put_text (utf8_encode n) (scanstring t)"
proof (cases "high_surrogate n")
  case True
  then show ?thesis
    using scanstring_lone_high [OF hex4_val_hex4 [OF assms(1)] True] assms(2)
    by (simp add: hex4_def)
next
  case False
  then show ?thesis using assms(1) by (simp add: hex4_def hex4_val_hex4)
qed

lemma scanstring_escape_pair:
  assumes "high_surrogate h" "low_surrogate l"
  shows "scanstring (CHR 0x5C # CHR ''u'' # hex4 h @ CHR 0x5C # CHR ''u'' # hex4 l @ t)
           = put_text (utf8_encode (65536 + (h - 55296) * 1024 + (l - 56320))) (scanstring t)"
proof -
  have "h < 65536" "l < 65536" using assms by (simp_all add: high_surrogate_def low_surrogate_def)
  then show ?thesis using assms by (simp add: hex4_def hex4_val_hex4)
qed

lemma scanstring_plain:
  assumes "32 \<le> n" "n \<le> 126" "n \<noteq> 34" "n \<noteq> 92"
  shows "scanstring (char_of n # t) = put_text (utf8_encode n) (scanstring t)"
proof -
  have "(of_char (char_of n :: char) :: nat) = n" using assms by simp
  then have "char_of n \<noteq> CHR 0x22" "char_of n \<noteq> CHR 0x5C" "\<not> (of_char (char_of n :: char) :: nat) < 32"
    using assms by (auto simp: char_is_code)
  then show ?thesis using assms by (simp add: utf8_encode_def)
qed

lemma encode_char_cases:
  assumes "n < 1114112"
  obtains (short) e where "encode_char n = [CHR 0x5C, e]" "e \<noteq> CHR ''u''"
      "unescape e = Some (char_of n)" "n < 128"
    | (plain) "encode_char n = [char_of n]" "32 \<le> n" "n \<le> 126" "n \<noteq> 34" "n \<noteq> 92"
    | (low) "encode_char n = CHR 0x5C # CHR ''u'' # hex4 n" "n < 65536"
    | (high) h l where "encode_char n = CHR 0x5C # CHR ''u'' # hex4 h @ CHR 0x5C # CHR ''u'' # hex4 l"
        "high_surrogate h" "low_surrogate l" "65536 + (h - 55296) * 1024 + (l - 56320) = n"
proof -
  consider "n = 34" | "n = 92" | "n = 10" | "n = 13" | "n = 9" | "n = 8" | "n = 12"
    | (p) "n \<notin> {34, 92, 10, 13, 9, 8, 12}" "32 \<le> n" "n \<le> 126"
    | (l) "n \<notin> {34, 92, 10, 13, 9, 8, 12}" "\<not> (32 \<le> n \<and> n \<le> 126)" "n < 65536"
    | (h) "65536 \<le> n"
    by fastforce
  then show ?thesis
  proof cases
    case 1
    then show ?thesis
      using short [of "CHR 0x22"] by (simp add: encode_char_def unescape_def char_of_escaped)
  next
    case 2
    then show ?thesis
      using short [of "CHR 0x5C"] by (simp add: encode_char_def unescape_def char_of_escaped)
  next
    case 3
    then show ?thesis
      using short [of "CHR ''n''"] by (simp add: encode_char_def unescape_def char_of_escaped)
  next
    case 4
    then show ?thesis
      using short [of "CHR ''r''"] by (simp add: encode_char_def unescape_def char_of_escaped)
  next
    case 5
    then show ?thesis
      using short [of "CHR ''t''"] by (simp add: encode_char_def unescape_def char_of_escaped)
  next
    case 6
    then show ?thesis
      using short [of "CHR ''b''"] by (simp add: encode_char_def unescape_def char_of_escaped)
  next
    case 7
    then show ?thesis
      using short [of "CHR ''f''"] by (simp add: encode_char_def unescape_def char_of_escaped)
  next
    case p
    then show ?thesis using plain by (simp add: encode_char_def)
  next
    case l
    then show ?thesis using low by (simp add: encode_char_def)
  next
    case h
    define v where "v = n - 65536"
    define hi where "hi = 55296 + v div 1024"
    define lo where "lo = 56320 + v mod 1024"
    have v: "v < 1048576" using assms h unfolding v_def by arith
    then have "v div 1024 < 1024" by arith
    then have hs: "high_surrogate hi" unfolding hi_def high_surrogate_def by simp
    have ls: "low_surrogate lo" unfolding lo_def low_surrogate_def by simp
    have e: "encode_char n = CHR 0x5C # CHR ''u'' # hex4 hi @ CHR 0x5C # CHR ''u'' # hex4 lo"
      using h by (simp add: encode_char_def hi_def lo_def v_def)
    have "(hi - 55296) * 1024 + (lo - 56320) = v" unfolding hi_def lo_def by simp
    then have "65536 + (hi - 55296) * 1024 + (lo - 56320) = n" using h unfolding v_def by arith
    then show ?thesis using high [OF e hs ls] by simp
  qed
qed

lemma scanstring_encode_char:
  assumes "n < 1114112" "high_surrogate n \<longrightarrow> no_low_escape t"
  shows "scanstring (encode_char n @ t) = put_text (utf8_encode n) (scanstring t)"
  using assms(1)
proof (cases rule: encode_char_cases)
  case (short e)
  then show ?thesis by (simp add: utf8_encode_def)
next
  case plain
  then show ?thesis using scanstring_plain [of n t] by simp
next
  case low
  then show ?thesis using scanstring_escape_u [of n t] assms(2) by simp
next
  case (high h l)
  show ?thesis unfolding high(1) using scanstring_escape_pair [OF high(2,3), of t] high(4) by simp
qed

lemma no_low_escape_quote: "no_low_escape (CHR 0x22 # rest)"
  by (simp add: no_low_escape_def)

lemma no_low_escape_encode_char:
  assumes "n < 1114112" "\<not> low_surrogate n"
  shows "no_low_escape (encode_char n @ t)"
  using assms(1)
proof (cases rule: encode_char_cases)
  case (short e)
  then show ?thesis by (simp add: no_low_escape_def)
next
  case plain
  then have "char_of n \<noteq> CHR 0x5C" by (auto simp: char_is_code)
  then show ?thesis using plain by (simp add: no_low_escape_def)
next
  case low
  then show ?thesis
    using hex4_val_hex4 [OF low(2)] assms(2) by (simp add: no_low_escape_def hex4_def)
next
  case (high h l)
  have "h < 65536" "\<not> low_surrogate h"
    using high(2) by (simp_all add: high_surrogate_def low_surrogate_def)
  then show ?thesis
    using hex4_val_hex4 [of h] high(1) by (simp add: no_low_escape_def hex4_def)
qed

lemma scanstring_encoded:
  assumes "pair_free ns" "list_all (\<lambda>n. n < 1114112) ns"
  shows "scanstring (concat (map encode_char ns) @ CHR 0x22 # rest)
           = Inr (concat (map utf8_encode ns), rest)"
  using assms
proof (induction ns)
  case Nil
  then show ?case by simp
next
  case (Cons n ms)
  define t where "t = concat (map encode_char ms) @ CHR 0x22 # rest"
  have pf: "pair_free ms" using Cons.prems(1) by (cases ms) simp_all
  have ih: "scanstring t = Inr (concat (map utf8_encode ms), rest)"
    unfolding t_def using Cons.IH pf Cons.prems(2) by simp
  have "no_low_escape t" if "high_surrogate n"
  proof (cases ms)
    case Nil
    then show ?thesis unfolding t_def by (simp add: no_low_escape_quote)
  next
    case (Cons m ms')
    then have "\<not> low_surrogate m" "m < 1114112"
      using Cons.prems that \<open>pair_free (n # ms)\<close> \<open>list_all (\<lambda>n. n < 1114112) (n # ms)\<close>
      by simp_all
    then show ?thesis unfolding t_def Cons using no_low_escape_encode_char [of m] by simp
  qed
  then have "scanstring (encode_char n @ t) = put_text (utf8_encode n) (scanstring t)"
    using Cons.prems(2) by (intro scanstring_encode_char) simp_all
  then show ?case unfolding ih by (simp add: t_def put_text_def)
qed

lemma scanstring_encode_text:
  assumes "valid_text s"
  shows "scanstring (encode_text s @ CHR 0x22 # rest) = Inr (s, rest)"
proof -
  obtain ns where ns: "code_points s = Some ns" "pair_free ns"
    using assms by (auto simp: valid_text_def split: option.splits)
  have b: "s = concat (map utf8_encode ns)" "list_all (\<lambda>n. n < 1114112) ns"
    using code_points_bytes [OF ns(1)] by simp_all
  have "encode_text s = concat (map encode_char ns)" by (simp add: encode_text_def ns(1))
  then show ?thesis using scanstring_encoded [OF ns(2) b(2), of rest] b(1) by simp
qed

text \<open>A string in four scripts as it is written: \<^verbatim>\<open>"\u725b\ud83d\ude00\"\\\n\u00e9"\<close>.\<close>

lemma encode_str_example:
  "encode_str (CHR 0xE7 # CHR 0x89 # CHR 0x9B # CHR 0xF0 # CHR 0x9F # CHR 0x98 # CHR 0x80 #
               CHR 0x22 # CHR 0x5C # [CHR 0x0A, CHR 0xC3, CHR 0xA9])
     = [CHR 0x22] @ [CHR 0x5C] @ ''u725b'' @ [CHR 0x5C] @ ''ud83d'' @ [CHR 0x5C] @ ''ude00'' @
       [CHR 0x5C, CHR 0x22, CHR 0x5C, CHR 0x5C, CHR 0x5C] @ ''n'' @ [CHR 0x5C] @ ''u00e9'' @
       [CHR 0x22]"
  by (simp add: encode_str_def encode_text_def encode_char_def hex4_def hex_char_def next_cp_def
        is_cont_def cont_val_def char_is_code)

lemma scanstring_encode_str:
  "valid_text s \<Longrightarrow> \<exists>t. encode_str s @ rest = CHR 0x22 # t \<and> scanstring t = Inr (s, rest)"
  using scanstring_encode_text [of s rest] by (simp add: encode_str_def)

subsection \<open>Integers\<close>

lemma is_digit_digit_char: "d < 10 \<Longrightarrow> is_digit (digit_char d)"
  by (simp add: is_digit_def digit_char_def)

lemma digit_val_digit_char: "d < 10 \<Longrightarrow> digit_val (digit_char d) = d"
  by (simp add: digit_val_def digit_char_def)

lemma digit_char_zero_iff: "d < 10 \<Longrightarrow> (digit_char d = CHR ''0'') = (d = 0)"
  by (auto simp: digit_char_def char_is_code)

lemma show_nat_digits: "\<forall>c\<in>set (show_nat n). is_digit c"
proof (induction n rule: show_nat.induct)
  case (1 n)
  show ?case
  proof (cases "n < 10")
    case True
    then show ?thesis by (simp add: show_nat.simps [of n] is_digit_digit_char)
  next
    case False
    then show ?thesis using 1 by (simp add: show_nat.simps [of n] is_digit_digit_char)
  qed
qed

lemma nat_of_digits_snoc: "nat_of_digits (ds @ [c]) = 10 * nat_of_digits ds + digit_val c"
  by (simp add: nat_of_digits_def)

lemma nat_of_digits_show_nat: "nat_of_digits (show_nat n) = n"
proof (induction n rule: show_nat.induct)
  case (1 n)
  show ?case
  proof (cases "n < 10")
    case True
    then show ?thesis
      by (simp add: show_nat.simps [of n] nat_of_digits_def digit_val_digit_char)
  next
    case False
    then show ?thesis using 1
      by (simp add: show_nat.simps [of n] nat_of_digits_snoc digit_val_digit_char)
  qed
qed

lemma show_nat_start:
  "\<exists>c t. show_nat n = c # t \<and> is_digit c \<and> (c = CHR ''0'' \<longrightarrow> n = 0 \<and> t = [])"
proof (induction n rule: show_nat.induct)
  case (1 n)
  show ?case
  proof (cases "n < 10")
    case True
    then show ?thesis
      by (simp add: show_nat.simps [of n] is_digit_digit_char digit_char_zero_iff)
  next
    case False
    then have "n div 10 \<noteq> 0" by simp
    with False 1 show ?thesis
      by (auto simp: show_nat.simps [of n])
  qed
qed

lemma delim_not_digit: "delim rest \<Longrightarrow> takeWhile is_digit rest = [] \<and> dropWhile is_digit rest = rest"
  by (cases rest) (auto simp: delim_def is_digit_def)

lemma delim_not_float: "delim rest \<Longrightarrow> \<not> float_follows rest"
  by (cases rest) (auto simp: delim_def float_follows_def split: list.splits)

lemma scan_int_part_show_nat:
  assumes "delim rest"
  shows "scan_int_part (show_nat n @ rest) = Some (n, rest)"
proof -
  obtain c t where ct: "show_nat n = c # t" "is_digit c" "c = CHR ''0'' \<longrightarrow> n = 0 \<and> t = []"
    using show_nat_start by blast
  have all: "\<forall>x\<in>set (show_nat n). is_digit x" by (rule show_nat_digits)
  have tw: "takeWhile is_digit (show_nat n @ rest) = show_nat n"
    using all delim_not_digit [OF assms] by (simp add: takeWhile_append2)
  have dw: "dropWhile is_digit (show_nat n @ rest) = rest"
    using all delim_not_digit [OF assms] by (simp add: dropWhile_append2)
  show ?thesis
  proof (cases "c = CHR ''0''")
    case True
    with ct show ?thesis by (simp add: scan_int_part_def)
  next
    case False
    have "scan_int_part (show_nat n @ rest)
        = Some (nat_of_digits (takeWhile is_digit (show_nat n @ rest)),
                dropWhile is_digit (show_nat n @ rest))"
      using ct False by (simp add: scan_int_part_def)
    then show ?thesis by (simp only: tw dw nat_of_digits_show_nat)
  qed
qed

lemma show_nat_not_minus: "\<exists>c t. show_nat n = c # t \<and> c \<noteq> CHR ''-''"
  using show_nat_start [of n] by (auto simp: is_digit_def)

lemma scan_number_show_int:
  assumes "delim rest"
  shows "scan_number (show_int i @ rest) = Inr (JInt i, rest)"
proof (cases "i < 0")
  case True
  then show ?thesis
    using scan_int_part_show_nat [OF assms, of "nat (- i)"] delim_not_float [OF assms]
    by (simp add: scan_number_def show_int_def)
next
  case False
  obtain c t where ct: "show_nat (nat i) = c # t" "c \<noteq> CHR ''-''"
    using show_nat_not_minus by blast
  then show ?thesis
    using False scan_int_part_show_nat [OF assms, of "nat i"] delim_not_float [OF assms]
    by (simp add: scan_number_def show_int_def)
qed

subsection \<open>White space and first characters\<close>

lemma skip_ws_spaces: "skip_ws (replicate k CHR '' '' @ t) = skip_ws t"
  by (induction k) (simp_all add: skip_ws_def is_ws_def)

lemma skip_ws_newline_indent: "skip_ws (newline_indent lvl @ t) = skip_ws t"
  using skip_ws_spaces [of "4 * lvl" t] by (simp add: newline_indent_def skip_ws_def is_ws_def)

lemma skip_ws_no_ws: "\<not> is_ws c \<Longrightarrow> skip_ws (c # t) = c # t"
  by (simp add: skip_ws_def)

lemma value_start_facts:
  "value_start c \<Longrightarrow> \<not> is_ws c \<and> c \<noteq> CHR '']'' \<and> c \<noteq> CHR ''}''"
  by (auto simp: value_start_def is_ws_def is_digit_def)

lemma dumps_start: "\<exists>c t. dumps lvl v = c # t \<and> value_start c"
proof (cases v)
  case (JInt i)
  obtain c t where "show_nat (nat (if i < 0 then - i else i)) = c # t" "is_digit c"
    using show_nat_start by blast
  then show ?thesis using JInt
    by (cases "i < 0") (auto simp: show_int_def value_start_def)
next
  case (JStr s)
  then show ?thesis by (simp add: encode_str_def value_start_def)
qed (auto simp: value_start_def)

lemma dumps_items_start: "xs \<noteq> [] \<Longrightarrow> \<exists>c t. dumps_items lvl xs = c # t \<and> value_start c"
proof (cases xs)
  case (Cons x ys)
  obtain c t where "dumps lvl x = c # t" "value_start c" using dumps_start by blast
  then show ?thesis using Cons by auto
qed simp

lemma dumps_members_start: "ms \<noteq> [] \<Longrightarrow> \<exists>t. dumps_members lvl ms = CHR 0x22 # t"
  by (cases ms) (auto simp: encode_str_def)

lemma length_newline_indent: "length (newline_indent lvl) = Suc (4 * lvl)"
  by (simp add: newline_indent_def)

lemma dumps_nonempty: "0 < length (dumps lvl v)"
  using dumps_start [of lvl v] by auto

subsection \<open>Dictionaries read back\<close>

lemma dict_set_new: "k \<notin> fst ` set d \<Longrightarrow> dict_set d k v = d @ [(k, v)]"
  by (induction d) auto

lemma foldl_dict_set_distinct:
  "distinct (map fst (acc @ ms)) \<Longrightarrow> foldl (\<lambda>d (k, v). dict_set d k v) acc ms = acc @ ms"
proof (induction ms arbitrary: acc)
  case Nil
  then show ?case by simp
next
  case (Cons m ms)
  obtain k v where m: "m = (k, v)" by (cases m)
  have "k \<notin> fst ` set acc" using Cons.prems m by auto
  then have s: "dict_set acc k v = acc @ [(k, v)]" by (rule dict_set_new)
  have "distinct (map fst ((acc @ [(k, v)]) @ ms))" using Cons.prems m by simp
  then have "foldl (\<lambda>d (k, v). dict_set d k v) (acc @ [(k, v)]) ms = (acc @ [(k, v)]) @ ms"
    by (rule Cons.IH)
  then show ?case using m s by simp
qed

lemma dict_of_pairs_distinct: "distinct (map fst ms) \<Longrightarrow> dict_of_pairs ms = ms"
  using foldl_dict_set_distinct [of "[]" ms] by (simp add: dict_of_pairs_def)

subsection \<open>Values\<close>

lemma scan_once_null: "scan_once (Suc n) (''null'' @ rest) = Inr (JNull, rest)"
  by simp

lemma scan_once_bool:
  "scan_once (Suc n) ((if b then ''true'' else ''false'') @ rest) = Inr (JBool b, rest)"
  by simp

lemma show_int_start: "\<exists>c t. show_int i = c # t \<and> (is_digit c \<or> c = CHR ''-'')"
  using show_nat_start [of "nat i"] by (auto simp: show_int_def)

lemma scan_once_int:
  assumes "delim rest"
  shows "scan_once (Suc n) (show_int i @ rest) = Inr (JInt i, rest)"
proof -
  obtain c t where ct: "show_int i = c # t" "is_digit c \<or> c = CHR ''-''"
    using show_int_start by blast
  then have "c \<noteq> CHR 0x22" "c \<noteq> CHR ''{''" "c \<noteq> CHR ''[''" "c \<noteq> CHR ''n''" "c \<noteq> CHR ''t''"
      "c \<noteq> CHR ''f''"
    by (auto simp: is_digit_def)
  then have "scan_once (Suc n) (show_int i @ rest) = scan_number (show_int i @ rest)"
    using ct(1) by simp
  then show ?thesis using scan_number_show_int [OF assms] by simp
qed

lemma scan_once_str:
  assumes "valid_text s"
  shows "scan_once (Suc n) (encode_str s @ rest) = Inr (JStr s, rest)"
proof -
  obtain t where "encode_str s @ rest = CHR 0x22 # t" "scanstring t = Inr (s, rest)"
    using scanstring_encode_str [OF assms] by blast
  then show ?thesis by simp
qed

subsection \<open>One step of a list and of an object\<close>

lemma scan_once_empty_list: "scan_once (Suc n) (''[]'' @ rest) = Inr (JList [], rest)"
  by (simp add: skip_ws_def is_ws_def)

lemma scan_once_empty_obj: "scan_once (Suc n) (''{}'' @ rest) = Inr (JObj [], rest)"
  by (simp add: skip_ws_def is_ws_def)

lemma scan_once_list_step:
  assumes "value_start c" and "scan_items n (c # t) = Inr (xs, r)"
  shows "scan_once (Suc n) (CHR ''['' # newline_indent lvl @ c # t) = Inr (JList xs, r)"
proof -
  have "skip_ws (newline_indent lvl @ c # t) = c # t"
    using value_start_facts [OF assms(1)] by (simp add: skip_ws_newline_indent skip_ws_no_ws)
  then show ?thesis using value_start_facts [OF assms(1)] assms(2) by simp
qed

lemma scan_once_obj_step:
  assumes "scan_members n (CHR 0x22 # t) = Inr (ms, r)"
  shows "scan_once (Suc n) (CHR ''{'' # newline_indent lvl @ CHR 0x22 # t)
           = Inr (JObj (dict_of_pairs ms), r)"
proof -
  have "skip_ws (newline_indent lvl @ CHR 0x22 # t) = CHR 0x22 # t"
    by (simp add: skip_ws_newline_indent skip_ws_no_ws is_ws_def)
  then show ?thesis using assms by simp
qed

lemma scan_items_last:
  assumes "scan_once n s = Inr (v, newline_indent lvl @ CHR '']'' # rest)"
  shows "scan_items (Suc n) s = Inr ([v], rest)"
proof -
  have "skip_ws (newline_indent lvl @ CHR '']'' # rest) = CHR '']'' # rest"
    by (simp add: skip_ws_newline_indent skip_ws_no_ws is_ws_def)
  then show ?thesis using assms by simp
qed

lemma scan_items_more:
  assumes "scan_once n s = Inr (v, CHR '','' # newline_indent lvl @ c # t)"
    and "value_start c" and "scan_items n (c # t) = Inr (vs, r)"
  shows "scan_items (Suc n) s = Inr (v # vs, r)"
proof -
  have a: "skip_ws (CHR '','' # newline_indent lvl @ c # t) = CHR '','' # newline_indent lvl @ c # t"
    by (simp add: skip_ws_no_ws is_ws_def)
  have b: "skip_ws (newline_indent lvl @ c # t) = c # t"
    using value_start_facts [OF assms(2)] by (simp add: skip_ws_newline_indent skip_ws_no_ws)
  show ?thesis using assms(1,3) a b by simp
qed

lemma scan_members_key:
  assumes "valid_text k"
  shows "\<exists>q. encode_str k @ '': '' @ c # t = CHR 0x22 # q \<and>
             scanstring q = Inr (k, CHR '':'' # CHR '' '' # c # t)"
  using scanstring_encode_str [OF assms, of "'': '' @ c # t"] by simp

lemma skip_ws_after_colon:
  assumes "value_start c"
  shows "skip_ws (CHR '':'' # CHR '' '' # c # t) = CHR '':'' # CHR '' '' # c # t"
    and "skip_ws (CHR '' '' # c # t) = c # t"
  using value_start_facts [OF assms] by (simp_all add: skip_ws_def is_ws_def)

lemma scan_members_last:
  assumes "value_start c"
    and "scan_once n (c # t) = Inr (v, newline_indent lvl @ CHR ''}'' # rest)"
    and "valid_text k"
  shows "scan_members (Suc n) (encode_str k @ '': '' @ c # t) = Inr ([(k, v)], rest)"
proof -
  obtain q where q: "encode_str k @ '': '' @ c # t = CHR 0x22 # q"
      "scanstring q = Inr (k, CHR '':'' # CHR '' '' # c # t)"
    using scan_members_key [OF assms(3)] by blast
  have e: "skip_ws (newline_indent lvl @ CHR ''}'' # rest) = CHR ''}'' # rest"
    by (simp add: skip_ws_newline_indent skip_ws_no_ws is_ws_def)
  show ?thesis
    unfolding q(1) using q(2) skip_ws_after_colon [OF assms(1)] assms(2) e by simp
qed

lemma scan_members_more:
  assumes "value_start c"
    and "scan_once n (c # t) = Inr (v, CHR '','' # newline_indent lvl @ CHR 0x22 # u)"
    and "scan_members n (CHR 0x22 # u) = Inr (ms, r)"
    and "valid_text k"
  shows "scan_members (Suc n) (encode_str k @ '': '' @ c # t) = Inr ((k, v) # ms, r)"
proof -
  obtain q where q: "encode_str k @ '': '' @ c # t = CHR 0x22 # q"
      "scanstring q = Inr (k, CHR '':'' # CHR '' '' # c # t)"
    using scan_members_key [OF assms(4)] by blast
  have a: "skip_ws (CHR '','' # newline_indent lvl @ CHR 0x22 # u)
             = CHR '','' # newline_indent lvl @ CHR 0x22 # u"
    by (simp add: skip_ws_no_ws is_ws_def)
  have b: "skip_ws (newline_indent lvl @ CHR 0x22 # u) = CHR 0x22 # u"
    by (simp add: skip_ws_newline_indent skip_ws_no_ws is_ws_def)
  show ?thesis
    unfolding q(1) using q(2) skip_ws_after_colon [OF assms(1)] assms(2,3) a b by simp
qed

subsection \<open>Every written value reads back\<close>

lemma delim_newline_indent: "delim (newline_indent lvl @ z)"
  by (simp add: delim_def newline_indent_def)

lemma delim_comma: "delim (CHR '','' # z)"
  by (simp add: delim_def)

lemma scan_dumps:
  "\<lbrakk>wf_json v; 2 * length (dumps lvl v) < n; delim rest\<rbrakk>
     \<Longrightarrow> scan_once n (dumps lvl v @ rest) = Inr (v, rest)"
  "\<lbrakk>xs \<noteq> []; \<forall>x\<in>set xs. wf_json x; 2 * length (dumps_items lvl xs) \<le> n\<rbrakk>
     \<Longrightarrow> scan_items n (dumps_items lvl xs @ rest) = Inr (xs, rest)"
  "\<lbrakk>ms \<noteq> []; \<forall>m\<in>set ms. valid_text (fst m) \<and> wf_json (snd m);
    2 * length (dumps_members lvl ms) \<le> n\<rbrakk>
     \<Longrightarrow> scan_members n (dumps_members lvl ms @ rest) = Inr (ms, rest)"
proof (induction lvl v and lvl xs and lvl ms arbitrary: n rest and n rest and n rest
    rule: dumps_dumps_items_dumps_members.induct)
  case (1 lvl)
  then obtain n' where "n = Suc n'" by (cases n) auto
  then show ?case using scan_once_null by simp
next
  case (2 lvl b)
  then obtain n' where "n = Suc n'" by (cases n) auto
  then show ?case using scan_once_bool [of n' b rest] by simp
next
  case (3 lvl i)
  then obtain n' where "n = Suc n'" by (cases n) auto
  then show ?case using scan_once_int [OF "3.prems"(3)] by simp
next
  case (4 lvl s)
  then obtain n' where "n = Suc n'" by (cases n) auto
  moreover have "valid_text s" using "4.prems"(1) by simp
  ultimately show ?case using scan_once_str by simp
next
  case (5 lvl xs)
  obtain n' where n: "n = Suc n'" using "5.prems"(2) by (cases n) auto
  show ?case
  proof (cases "xs = []")
    case True
    then show ?thesis using n scan_once_empty_list [of n' rest] by simp
  next
    case False
    obtain c t where ct: "dumps_items (Suc lvl) xs = c # t" "value_start c"
      using dumps_items_start [OF False] by blast
    have w: "\<forall>x\<in>set xs. wf_json x" using "5.prems"(1) by simp
    have f: "2 * length (dumps_items (Suc lvl) xs) \<le> n'"
      using "5.prems"(2) n False by simp
    have "scan_items n' (dumps_items (Suc lvl) xs @ rest) = Inr (xs, rest)"
      using "5.IH" [OF False False w f] .
    then have "scan_items n' (c # (t @ rest)) = Inr (xs, rest)" using ct(1) by simp
    then have "scan_once (Suc n') (CHR ''['' # newline_indent (Suc lvl) @ c # (t @ rest))
        = Inr (JList xs, rest)"
      using scan_once_list_step [OF ct(2)] by blast
    then show ?thesis using False n ct(1) by simp
  qed
next
  case (6 lvl ms)
  obtain n' where n: "n = Suc n'" using "6.prems"(2) by (cases n) auto
  show ?case
  proof (cases "ms = []")
    case True
    then show ?thesis using n scan_once_empty_obj [of n' rest] by simp
  next
    case False
    obtain u where u: "dumps_members (Suc lvl) ms = CHR 0x22 # u"
      using dumps_members_start [OF False] by blast
    have w: "\<forall>m\<in>set ms. valid_text (fst m) \<and> wf_json (snd m)" using "6.prems"(1) by simp
    have d: "dict_of_pairs ms = ms" using "6.prems"(1) by (simp add: dict_of_pairs_distinct)
    have f: "2 * length (dumps_members (Suc lvl) ms) \<le> n'"
      using "6.prems"(2) n False by simp
    have "scan_members n' (dumps_members (Suc lvl) ms @ rest) = Inr (ms, rest)"
      using "6.IH" [OF False False w f] .
    then have "scan_members n' (CHR 0x22 # (u @ rest)) = Inr (ms, rest)" using u by simp
    then have "scan_once (Suc n') (CHR ''{'' # newline_indent (Suc lvl) @ CHR 0x22 # (u @ rest))
        = Inr (JObj (dict_of_pairs ms), rest)"
      by (rule scan_once_obj_step)
    then show ?thesis using False n u d by simp
  qed
next
  case (7 lvl)
  then show ?case by simp
next
  case (8 lvl x xs)
  obtain n' where n: "n = Suc n'" using "8.prems"(3) dumps_nonempty [of lvl x] by (cases n) auto
  have wx: "wf_json x" using "8.prems"(2) by simp
  show ?case
  proof (cases "xs = []")
    case True
    have f: "2 * length (dumps lvl x) < n'"
      using "8.prems"(3) n True by (simp add: length_newline_indent)
    have "scan_once n' (dumps lvl x @ (newline_indent (lvl - 1) @ CHR '']'' # rest))
        = Inr (x, newline_indent (lvl - 1) @ CHR '']'' # rest)"
      using "8.IH"(1) [OF wx f delim_newline_indent] .
    then have "scan_items (Suc n') (dumps lvl x @ (newline_indent (lvl - 1) @ CHR '']'' # rest))
        = Inr ([x], rest)"
      by (rule scan_items_last)
    then show ?thesis using True n by simp
  next
    case False
    obtain c t where ct: "dumps_items lvl xs = c # t" "value_start c"
      using dumps_items_start [OF False] by blast
    have f: "2 * length (dumps lvl x) < n'"
      using "8.prems"(3) n False by (simp add: length_newline_indent)
    have g: "2 * length (dumps_items lvl xs) \<le> n'"
      using "8.prems"(3) n False by (simp add: length_newline_indent)
    have w: "\<forall>y\<in>set xs. wf_json y" using "8.prems"(2) by simp
    have a: "scan_once n' (dumps lvl x @ (CHR '','' # newline_indent lvl @ c # (t @ rest)))
        = Inr (x, CHR '','' # newline_indent lvl @ c # (t @ rest))"
      using "8.IH"(1) [OF wx f delim_comma] .
    have "scan_items n' (dumps_items lvl xs @ rest) = Inr (xs, rest)"
      using "8.IH"(3) [OF False False w g] .
    then have b: "scan_items n' (c # (t @ rest)) = Inr (xs, rest)" using ct(1) by simp
    have "scan_items (Suc n') (dumps lvl x @ (CHR '','' # newline_indent lvl @ c # (t @ rest)))
        = Inr (x # xs, rest)"
      using scan_items_more [OF a ct(2) b] .
    then show ?thesis using False n ct(1) by simp
  qed
next
  case (9 lvl)
  then show ?case by simp
next
  case (10 lvl k v ms)
  obtain n' where n: "n = Suc n'" using "10.prems"(3) dumps_nonempty [of lvl v] by (cases n) auto
  obtain c t where ct: "dumps lvl v = c # t" "value_start c" using dumps_start by blast
  have wv: "wf_json v" using "10.prems"(2) by simp
  have vk: "valid_text k" using "10.prems"(2) by simp
  show ?case
  proof (cases "ms = []")
    case True
    have f: "2 * length (dumps lvl v) < n'"
      using "10.prems"(3) n True by (simp add: length_newline_indent)
    have "scan_once n' (dumps lvl v @ (newline_indent (lvl - 1) @ CHR ''}'' # rest))
        = Inr (v, newline_indent (lvl - 1) @ CHR ''}'' # rest)"
      using "10.IH"(1) [OF wv f delim_newline_indent] .
    then have "scan_once n' (c # (t @ newline_indent (lvl - 1) @ CHR ''}'' # rest))
        = Inr (v, newline_indent (lvl - 1) @ CHR ''}'' # rest)"
      using ct(1) by simp
    then have "scan_members (Suc n')
          (encode_str k @ '': '' @ c # (t @ newline_indent (lvl - 1) @ CHR ''}'' # rest))
        = Inr ([(k, v)], rest)"
      using scan_members_last [OF ct(2) _ vk] by blast
    then show ?thesis using True n ct(1) by simp
  next
    case False
    obtain u where u: "dumps_members lvl ms = CHR 0x22 # u"
      using dumps_members_start [OF False] by blast
    have f: "2 * length (dumps lvl v) < n'"
      using "10.prems"(3) n False by (simp add: length_newline_indent)
    have g: "2 * length (dumps_members lvl ms) \<le> n'"
      using "10.prems"(3) n False by (simp add: length_newline_indent)
    have w: "\<forall>m\<in>set ms. valid_text (fst m) \<and> wf_json (snd m)" using "10.prems"(2) by simp
    have "scan_once n' (dumps lvl v @ (CHR '','' # newline_indent lvl @ CHR 0x22 # (u @ rest)))
        = Inr (v, CHR '','' # newline_indent lvl @ CHR 0x22 # (u @ rest))"
      using "10.IH"(1) [OF wv f delim_comma] .
    then have a: "scan_once n' (c # (t @ CHR '','' # newline_indent lvl @ CHR 0x22 # (u @ rest)))
        = Inr (v, CHR '','' # newline_indent lvl @ CHR 0x22 # (u @ rest))"
      using ct(1) by simp
    have "scan_members n' (dumps_members lvl ms @ rest) = Inr (ms, rest)"
      using "10.IH"(3) [OF False False w g] .
    then have b: "scan_members n' (CHR 0x22 # (u @ rest)) = Inr (ms, rest)" using u by simp
    have "scan_members (Suc n')
          (encode_str k @ '': '' @ c # (t @ CHR '','' # newline_indent lvl @ CHR 0x22 # (u @ rest)))
        = Inr ((k, v) # ms, rest)"
      using scan_members_more [OF ct(2) a b vk] .
    then show ?thesis using False n ct(1) u by simp
  qed
qed

subsection \<open>Saving and loading\<close>

lemma json_loads_json_dumps:
  assumes "wf_json v"
  shows "json_loads (json_dumps v) = Inr v"
proof -
  obtain c t where ct: "dumps 0 v = c # t" "value_start c" using dumps_start by blast
  have s: "skip_ws (dumps 0 v) = dumps 0 v"
    using ct value_start_facts [OF ct(2)] by (simp add: skip_ws_no_ws)
  have "scan_once (2 * length (dumps 0 v) + 2) (dumps 0 v @ []) = Inr (v, [])"
    by (rule scan_dumps(1) [OF assms]) (simp_all add: delim_def)
  then have e: "scan_once (2 * length (json_dumps v) + 2) (skip_ws (json_dumps v)) = Inr (v, [])"
    by (simp only: json_dumps_def s append_Nil2)
  have w: "skip_ws [] = []" by (simp add: skip_ws_def)
  show ?thesis unfolding json_loads_def e using w by simp
qed

lemma field_ok_wf: "field_ok k v \<Longrightarrow> wf_json v"
  by (cases v) simp_all

text \<open>A text of ASCII characters is a text.\<close>

lemma code_points_ascii:
  "list_all (\<lambda>c. (of_char c :: nat) < 128) s \<Longrightarrow> code_points s = Some (map of_char s)"
  by (induction s) (simp_all add: next_cp_def)

lemma pair_free_small: "list_all (\<lambda>n. n < 128) ns \<Longrightarrow> pair_free ns"
  by (induction ns rule: pair_free.induct) (simp_all add: high_surrogate_def)

lemma valid_text_ascii:
  assumes "list_all (\<lambda>c. (of_char c :: nat) < 128) s"
  shows "valid_text s"
proof -
  have "list_all (\<lambda>n. n < 128) (map of_char s :: nat list)"
    using assms by (simp add: list_all_iff)
  then show ?thesis
    using code_points_ascii [OF assms] pair_free_small by (simp add: valid_text_def)
qed

lemma field_ok_key: "field_ok k v \<Longrightarrow> valid_text k"
proof -
  assume "field_ok k v"
  then have "k \<in> {''id'', ''completed'', ''category'', ''due_date'', ''notes'', ''created_at'',
      ''task'', ''priority''}"
    by (cases v) auto
  then have "list_all (\<lambda>c. (of_char c :: nat) < 128) k" by auto
  then show ?thesis by (rule valid_text_ascii)
qed

lemma task_shape_wf: "task_shape d \<Longrightarrow> wf_json (JObj d)"
  by (auto simp: task_shape_def list_all_iff field_ok_wf field_ok_key)

text \<open>A task that \<^verbatim>\<open>add_task_form\<close> makes from texts has the Task shape.\<close>

lemma pad_ascii: "list_all (\<lambda>c. (of_char c :: nat) < 128) (pad w n)"
  using show_nat_digits [of n] by (auto simp: pad_def Let_def list_all_iff is_digit_def)

lemma strftime_ascii:
  "list_all (\<lambda>c. (of_char c :: nat) < 128) (strftime_ymd d)"
  "list_all (\<lambda>c. (of_char c :: nat) < 128) (strftime_ymd_hms t)"
  by (simp_all add: strftime_ymd_def strftime_ymd_hms_def pad_ascii)

lemma add_task_form_shape:
  assumes "add_task_form f now_id now_created = (Some t, msgs)"
    and "valid_text (form_task f)" "valid_text (form_category f)" "valid_text (form_notes f)"
  shows "task_shape t"
proof -
  have "valid_text (priority_str (form_priority f))"
    by (cases "form_priority f") (simp_all add: valid_text_ascii)
  then show ?thesis
    using assms strftime_ascii [THEN valid_text_ascii]
    by (cases "form_priority f")
       (auto simp: add_task_form_def task_shape_def split: if_splits)
qed

text \<open>Two surrogates that stand for one code point are not read back as they were written:
  the high surrogate \<^verbatim>\<open>D83D\<close> and the low surrogate \<^verbatim>\<open>DE00\<close>, written as two escapes, are
  read as the one code point \<^verbatim>\<open>1F600\<close>. This is why a text must have no such pair.\<close>

lemma surrogate_pair_is_joined:
  "\<not> valid_text [CHR 0xED, CHR 0xA0, CHR 0xBD, CHR 0xED, CHR 0xB8, CHR 0x80] \<and>
   json_dumps (JStr [CHR 0xED, CHR 0xA0, CHR 0xBD, CHR 0xED, CHR 0xB8, CHR 0x80])
     = CHR 0x22 # CHR 0x5C # ''ud83d'' @ CHR 0x5C # ''ude00'' @ [CHR 0x22] \<and>
   json_loads (CHR 0x22 # CHR 0x5C # ''ud83d'' @ CHR 0x5C # ''ude00'' @ [CHR 0x22])
     = Inr (JStr [CHR 0xF0, CHR 0x9F, CHR 0x98, CHR 0x80])"
proof -
  have c: "code_points [CHR 0xED, CHR 0xA0, CHR 0xBD, CHR 0xED, CHR 0xB8, CHR 0x80]
      = Some [55357, 56832]"
    by (simp add: next_cp_def is_cont_def cont_val_def)
  have v: "\<not> valid_text [CHR 0xED, CHR 0xA0, CHR 0xBD, CHR 0xED, CHR 0xB8, CHR 0x80]"
    unfolding valid_text_def c by (simp add: high_surrogate_def low_surrogate_def)
  have d: "json_dumps (JStr [CHR 0xED, CHR 0xA0, CHR 0xBD, CHR 0xED, CHR 0xB8, CHR 0x80])
     = CHR 0x22 # CHR 0x5C # ''ud83d'' @ CHR 0x5C # ''ude00'' @ [CHR 0x22]"
    unfolding json_dumps_def dumps.simps encode_str_def encode_text_def c
    by (simp add: encode_char_def hex4_def hex_char_def char_is_code)
  define t where "t = CHR 0x5C # ''ud83d'' @ CHR 0x5C # ''ude00'' @ [CHR 0x22]"
  have s: "scanstring t = Inr ([CHR 0xF0, CHR 0x9F, CHR 0x98, CHR 0x80], [])"
    unfolding t_def
    by (simp add: hex4_val_def hex_val_def high_surrogate_def low_surrogate_def utf8_encode_def
          put_text_def char_is_code)
  have n: "2 * length (CHR 0x22 # t) + 2 = Suc 29" unfolding t_def by simp
  have w: "skip_ws (CHR 0x22 # t) = CHR 0x22 # t" by (simp add: skip_ws_def is_ws_def)
  have o: "scan_once (Suc m) (CHR 0x22 # t)
      = Inr (JStr [CHR 0xF0, CHR 0x9F, CHR 0x98, CHR 0x80], [])" for m
    using s by simp
  have "json_loads (CHR 0x22 # t) = Inr (JStr [CHR 0xF0, CHR 0x9F, CHR 0x98, CHR 0x80])"
    unfolding json_loads_def n w o by (simp add: skip_ws_def)
  then have l: "json_loads (CHR 0x22 # CHR 0x5C # ''ud83d'' @ CHR 0x5C # ''ude00'' @ [CHR 0x22])
     = Inr (JStr [CHR 0xF0, CHR 0x9F, CHR 0x98, CHR 0x80])"
    unfolding t_def .
  show ?thesis using v d l by simp
qed

text \<open>
  C1. Saving a list whose tasks have the Task shape and loading the file again returns
  the list that was saved: the same dictionaries, with the same keys and values, in the
  same order. The texts of a task can be of any script.
\<close>

theorem save_then_load_roundtrip:
  assumes "\<forall>a\<in>set ts. task_shape (heap s a)"
  shows "load_tasks (data_file (save_tasks ts s)) = Returns (task_values s ts)"
proof -
  have "wf_json (task_values s ts)"
    using assms task_shape_wf by (simp add: task_values_def del: wf_json.simps(3))
  then have "json_loads (json_dumps (task_values s ts)) = Inr (task_values s ts)"
    by (rule json_loads_json_dumps)
  then show ?thesis
    by (simp add: save_tasks_def load_tasks_def json_load_def read_text_def)
qed

theorem save_then_load_roundtrip_witness:
  "task_shape (heap world_app 0) \<and> task_shape (heap world_app 1) \<and>
   load_tasks (data_file (save_tasks [0, 1] world_app))
     = Returns (JList [JObj (world_heap 0), JObj (world_heap 1)])"
proof -
  have h: "task_shape (heap world_app 0)" "task_shape (heap world_app 1)"
    by (simp_all add: world_app_def world_heap_def task_shape_def valid_text_def next_cp_def
          is_cont_def cont_val_def high_surrogate_def low_surrogate_def)
  then have "\<forall>a\<in>set [0, 1]. task_shape (heap world_app a)" by simp
  then have "load_tasks (data_file (save_tasks [0, 1] world_app))
      = Returns (task_values world_app [0, 1])"
    by (rule save_then_load_roundtrip)
  then show ?thesis using h by (simp add: task_values_def world_app_def)
qed

subsection \<open>The fuel of the decoder suffices\<close>

lemma length_skip_ws: "length (skip_ws s) \<le> length s"
  by (simp add: skip_ws_def length_dropWhile_le)

lemma scanstring_step:
  "scanstring (c # cs) = Inr ([], cs) \<or> scanstring (c # cs) = Inl Malformed
   \<or> (\<exists>p t. length t < length (c # cs) \<and> scanstring (c # cs) = put_text p (scanstring t))"
proof -
  consider (dq) "c = CHR 0x22" | (bsl) "c = CHR 0x5C" | (plain) "c \<noteq> CHR 0x22" "c \<noteq> CHR 0x5C"
    by blast
  then show ?thesis
  proof cases
    case dq
    then show ?thesis by simp
  next
    case plain
    show ?thesis
    proof (cases "(of_char c :: nat) < 32")
      case True
      then show ?thesis using plain by simp
    next
      case False
      then have "scanstring (c # cs) = put_text [c] (scanstring cs)"
        using plain by simp
      moreover have "length cs < length (c # cs)" by simp
      ultimately show ?thesis by blast
    qed
  next
    case bsl
    show ?thesis
    proof (cases cs)
      case Nil
      then show ?thesis using bsl by simp
    next
      case (Cons e r)
      show ?thesis
      proof (cases "e = CHR ''u''")
        case False
        have l: "length r < length (c # cs)" using Cons by simp
        show ?thesis
        proof (cases "unescape e")
          case None
          then show ?thesis using bsl Cons False by simp
        next
          case (Some ch)
          then have "scanstring (c # cs) = put_text [ch] (scanstring r)"
            using bsl Cons False by simp
          then show ?thesis using l by blast
        qed
      next
        case True
        note u = True
        show ?thesis
        proof (cases "length r < 4")
          case True
          then have "scanstring (c # cs) = Inl Malformed"
            unfolding Cons bsl u by (simp add: short4)
          then show ?thesis by simp
        next
          case False
          then obtain h1 h2 h3 h4 r1 where r: "r = h1 # h2 # h3 # h4 # r1"
            using long4 by blast
          have l1: "length r1 < length (c # cs)" unfolding Cons r by simp
          show ?thesis
          proof (cases "hex4_val h1 h2 h3 h4")
            case None
            then show ?thesis unfolding Cons bsl u r by simp
          next
            case (Some uni)
            show ?thesis
            proof (cases "high_surrogate uni")
              case False
              then have "scanstring (c # cs) = put_text (utf8_encode uni) (scanstring r1)"
                unfolding Cons bsl u r using Some by simp
              then show ?thesis using l1 by blast
            next
              case True
              note e = scanstring_high [OF Some True, of r1]
              show ?thesis
              proof (cases "length r1 < 6")
                case True
                then have "scanstring (c # cs) = put_text (utf8_encode uni) (scanstring r1)"
                  unfolding Cons bsl u r e by (simp add: short6)
                then show ?thesis using l1 by blast
              next
                case False
                then obtain b v g1 g2 g3 g4 r2 where r1: "r1 = b # v # g1 # g2 # g3 # g4 # r2"
                  using long6 by blast
                have l2: "length r2 < length (c # cs)" unfolding Cons r r1 by simp
                have "scanstring (c # cs) = Inl Malformed
                    \<or> scanstring (c # cs) = put_text (utf8_encode uni) (scanstring r1)
                    \<or> scanstring (c # cs)
                        = put_text (utf8_encode (65536 + (uni - 55296) * 1024
                                      + (the (hex4_val g1 g2 g3 g4) - 56320))) (scanstring r2)"
                  unfolding Cons bsl u r e unfolding r1
                  by (cases "hex4_val g1 g2 g3 g4") simp_all
                then show ?thesis using l1 l2 by blast
              qed
            qed
          qed
        qed
      qed
    qed
  qed
qed

lemma put_text_shorter:
  assumes "put_text p x = Inr (t, r)"
  obtains t' where "x = Inr (t', r)"
  using assms by (cases x) (auto simp: put_text_def)

lemma scanstring_shorter: "scanstring s = Inr (t, r) \<Longrightarrow> length r < length s"
proof (induction "length s" arbitrary: s t rule: less_induct)
  case less
  show ?case
  proof (cases s)
    case Nil
    then show ?thesis using less.prems by simp
  next
    case (Cons c cs)
    from scanstring_step [of c cs] consider
        (stop) "scanstring (c # cs) = Inr ([], cs)"
      | (fail) "scanstring (c # cs) = Inl Malformed"
      | (more) p u where "length u < length (c # cs)"
          "scanstring (c # cs) = put_text p (scanstring u)"
      by blast
    then show ?thesis
    proof cases
      case stop
      then show ?thesis using less.prems Cons by simp
    next
      case fail
      then show ?thesis using less.prems Cons by auto
    next
      case more
      then have "put_text p (scanstring u) = Inr (t, r)" using less.prems Cons by simp
      then obtain t' where "scanstring u = Inr (t', r)" by (rule put_text_shorter)
      then have "length r < length u" using less.hyps [of u t'] more(1) Cons by simp
      then show ?thesis using more(1) Cons by simp
    qed
  qed
qed

lemma scan_number_shorter: "scan_number s = Inr (v, r) \<Longrightarrow> length r < length s"
  by (cases s)
     (auto simp: scan_number_def scan_int_part_def Let_def length_dropWhile_le less_Suc_eq_le
           le_SucI split: if_splits list.splits option.splits)

lemma scan_shorter:
  "scan_once n s = Inr (v, r) \<Longrightarrow> length r < length s"
  "scan_items n s = Inr (vs, r) \<Longrightarrow> length r < length s"
  "scan_members n s = Inr (ms, r) \<Longrightarrow> length r < length s"
proof (induction n s and n s and n s arbitrary: v r and vs r and ms r
    rule: scan_once_scan_items_scan_members.induct)
  case (1 s)
  then show ?case by simp
next
  case (2 n s)
  show ?case
  proof (cases s)
    case Nil
    then show ?thesis using "2.prems" by simp
  next
    case (Cons c t)
    consider (str) "c = CHR 0x22" | (obj) "c = CHR ''{''" | (arr) "c = CHR ''[''"
      | (other) "c \<noteq> CHR 0x22" "c \<noteq> CHR ''{''" "c \<noteq> CHR ''[''"
      by blast
    then show ?thesis
    proof cases
      case str
      then show ?thesis using "2.prems" Cons
        by (auto split: sum.splits dest: scanstring_shorter)
    next
      case obj
      show ?thesis
      proof (cases "skip_ws t")
        case Nil
        then show ?thesis using "2.prems" Cons obj by simp
      next
        case (Cons c' r')
        have l: "length (c' # r') \<le> length t" using length_skip_ws [of t] Cons by simp
        show ?thesis
        proof (cases "c' = CHR ''}''")
          case True
          then show ?thesis using "2.prems" \<open>s = c # t\<close> obj Cons l by auto
        next
          case False
          then obtain ms r'' where m: "scan_members n (c' # r') = Inr (ms, r'')" "r = r''"
            using "2.prems" \<open>s = c # t\<close> obj Cons by (auto split: sum.splits)
          have "length r'' < length (c' # r')"
            using "2.IH"(1) [OF \<open>s = c # t\<close> _ _ Cons False m(1)] obj by simp
          then show ?thesis using m(2) l \<open>s = c # t\<close> by simp
        qed
      qed
    next
      case arr
      show ?thesis
      proof (cases "skip_ws t")
        case Nil
        then show ?thesis using "2.prems" Cons arr by simp
      next
        case (Cons c' r')
        have l: "length (c' # r') \<le> length t" using length_skip_ws [of t] Cons by simp
        show ?thesis
        proof (cases "c' = CHR '']''")
          case True
          then show ?thesis using "2.prems" \<open>s = c # t\<close> arr Cons l by auto
        next
          case False
          then obtain xs r'' where m: "scan_items n (c' # r') = Inr (xs, r'')" "r = r''"
            using "2.prems" \<open>s = c # t\<close> arr Cons by (auto split: sum.splits)
          have "length r'' < length (c' # r')"
            using "2.IH"(2) [OF \<open>s = c # t\<close> _ _ _ Cons False m(1)] arr by simp
          then show ?thesis using m(2) l \<open>s = c # t\<close> by simp
        qed
      qed
    next
      case other
      then show ?thesis using "2.prems" Cons
        by (auto split: if_splits dest: scan_number_shorter simp: prefix_def)
    qed
  qed
next
  case (3 s)
  then show ?case by simp
next
  case (4 n s)
  from "4.prems" obtain v r1 where a: "scan_once n s = Inr (v, r1)"
    by (auto split: sum.splits)
  have l1: "length r1 < length s" using "4.IH"(1) [OF a] .
  show ?case
  proof (cases "skip_ws r1")
    case Nil
    then show ?thesis using "4.prems" a by simp
  next
    case (Cons c r')
    have l2: "length (c # r') \<le> length r1" using length_skip_ws [of r1] Cons by simp
    consider (close) "c = CHR '']''" | (comma) "c = CHR '',''" | (bad) "c \<noteq> CHR '']''" "c \<noteq> CHR '',''"
      by blast
    then show ?thesis
    proof cases
      case close
      then show ?thesis using "4.prems" a Cons l1 l2 by auto
    next
      case comma
      then obtain ws r'' where m: "scan_items n (skip_ws r') = Inr (ws, r'')" "r = r''"
        using "4.prems" a Cons by (auto split: sum.splits)
      have "length r'' < length (skip_ws r')"
        using "4.IH"(2) [OF a refl Cons _ _ m(1)] comma by simp
      then show ?thesis using m(2) l1 l2 length_skip_ws [of r'] by simp
    next
      case bad
      then show ?thesis using "4.prems" a Cons by simp
    qed
  qed
next
  case (5 s)
  then show ?case by simp
next
  case (6 n s)
  show ?case
  proof (cases s)
    case Nil
    then show ?thesis using "6.prems" by simp
  next
    case (Cons q t)
    then have q: "q = CHR 0x22" using "6.prems" by (auto split: if_splits)
    obtain k r1 where k: "scanstring t = Inr (k, r1)"
      using "6.prems" Cons q by (auto split: sum.splits)
    have l1: "length r1 < length t" using scanstring_shorter [OF k] .
    obtain c r2 where c: "skip_ws r1 = c # r2" "c = CHR '':''"
      using "6.prems" Cons q k by (auto split: list.splits if_splits)
    have l2: "length (c # r2) \<le> length r1" using length_skip_ws [of r1] c by simp
    obtain w r3 where w: "scan_once n (skip_ws r2) = Inr (w, r3)"
      using "6.prems" Cons q k c by (auto split: sum.splits)
    have "length r3 < length (skip_ws r2)"
      using "6.IH"(1) Cons q k c w by fastforce
    then have l3: "length r3 < length r2" using length_skip_ws [of r2] by simp
    obtain d r4 where d: "skip_ws r3 = d # r4"
      using "6.prems" Cons q k c w by (auto split: list.splits)
    have l4: "length (d # r4) \<le> length r3" using length_skip_ws [of r3] d by simp
    consider (close) "d = CHR ''}''" | (comma) "d = CHR '',''" | (bad) "d \<noteq> CHR ''}''" "d \<noteq> CHR '',''"
      by blast
    then show ?thesis
    proof cases
      case close
      then show ?thesis using "6.prems" Cons q k c w d l1 l2 l3 l4 by auto
    next
      case comma
      then obtain ws r5 where m: "scan_members n (skip_ws r4) = Inr (ws, r5)" "r = r5"
        using "6.prems" Cons q k c w d by (auto split: sum.splits)
      have "length r5 < length (skip_ws r4)"
        using "6.IH"(2) Cons q k c w d comma m(1) by fastforce
      then show ?thesis using m(2) l1 l2 l3 l4 length_skip_ws [of r4] Cons by simp
    next
      case bad
      then show ?thesis using "6.prems" Cons q k c w d by simp
    qed
  qed
qed

lemma put_text_fuel: "r \<noteq> Inl Out_of_fuel \<Longrightarrow> put_text p r \<noteq> Inl Out_of_fuel"
  by (cases r) (auto simp: put_text_def)

lemma scanstring_fuel: "scanstring s \<noteq> Inl Out_of_fuel"
proof (induction "length s" arbitrary: s rule: less_induct)
  case less
  show ?case
  proof (cases s)
    case Nil
    then show ?thesis by simp
  next
    case (Cons c cs)
    from scanstring_step [of c cs] consider
        (stop) "scanstring (c # cs) = Inr ([], cs)"
      | (fail) "scanstring (c # cs) = Inl Malformed"
      | (more) p u where "length u < length (c # cs)"
          "scanstring (c # cs) = put_text p (scanstring u)"
      by blast
    then show ?thesis
    proof cases
      case stop
      then show ?thesis using Cons by simp
    next
      case fail
      then show ?thesis using Cons by auto
    next
      case more
      have "scanstring u \<noteq> Inl Out_of_fuel" using less [of u] more(1) Cons by simp
      then show ?thesis using more(2) Cons put_text_fuel by simp
    qed
  qed
qed

lemma scan_number_fuel: "scan_number s \<noteq> Inl Out_of_fuel"
  by (simp add: scan_number_def Let_def split: option.split prod.split)

lemma scan_fuel:
  "2 * length s < n \<Longrightarrow> scan_once n s \<noteq> Inl Out_of_fuel"
  "2 * length s + 2 \<le> n \<Longrightarrow> scan_items n s \<noteq> Inl Out_of_fuel"
  "2 * length s + 2 \<le> n \<Longrightarrow> scan_members n s \<noteq> Inl Out_of_fuel"
proof (induction n s and n s and n s rule: scan_once_scan_items_scan_members.induct)
  case (1 s)
  then show ?case by simp
next
  case (2 n s)
  show ?case
  proof
    assume o: "scan_once (Suc n) s = Inl Out_of_fuel"
    then obtain c t where s: "s = c # t" by (cases s) auto
    consider (str) "c = CHR 0x22" | (obj) "c = CHR ''{''" | (arr) "c = CHR ''[''"
      | (other) "c \<noteq> CHR 0x22" "c \<noteq> CHR ''{''" "c \<noteq> CHR ''[''"
      by blast
    then show False
    proof cases
      case str
      then show ?thesis using o s scanstring_fuel [of t] by (auto split: sum.splits)
    next
      case obj
      then obtain c' r' where c: "skip_ws t = c' # r'" "c' \<noteq> CHR ''}''"
        using o s by (auto split: list.splits if_splits)
      then have m: "scan_members n (c' # r') = Inl Out_of_fuel"
        using o s obj by (auto split: sum.splits)
      have "length (c' # r') \<le> length t" using length_skip_ws [of t] c by simp
      then have "2 * length (c' # r') + 2 \<le> n" using "2.prems" s by simp
      then have "scan_members n (c' # r') \<noteq> Inl Out_of_fuel"
        using "2.IH"(1) s obj c by fastforce
      then show ?thesis using m by simp
    next
      case arr
      then obtain c' r' where c: "skip_ws t = c' # r'" "c' \<noteq> CHR '']''"
        using o s by (auto split: list.splits if_splits)
      then have m: "scan_items n (c' # r') = Inl Out_of_fuel"
        using o s arr by (auto split: sum.splits)
      have "length (c' # r') \<le> length t" using length_skip_ws [of t] c by simp
      then have "2 * length (c' # r') + 2 \<le> n" using "2.prems" s by simp
      then have "scan_items n (c' # r') \<noteq> Inl Out_of_fuel"
        using "2.IH"(2) s arr c by fastforce
      then show ?thesis using m by simp
    next
      case other
      then show ?thesis using o s scan_number_fuel [of s] by (auto split: if_splits)
    qed
  qed
next
  case (3 s)
  then show ?case by simp
next
  case (4 n s)
  have a: "scan_once n s \<noteq> Inl Out_of_fuel" using "4.IH"(1) "4.prems" by simp
  show ?case
  proof
    assume o: "scan_items (Suc n) s = Inl Out_of_fuel"
    then obtain v r1 where v: "scan_once n s = Inr (v, r1)"
      using a by (auto split: sum.splits)
    have l1: "length r1 < length s" using scan_shorter(1) [OF v] .
    obtain c r' where c: "skip_ws r1 = c # r'" "c = CHR '',''"
      using o v by (auto split: list.splits if_splits)
    then have m: "scan_items n (skip_ws r') = Inl Out_of_fuel"
      using o v by (auto split: sum.splits)
    have "length (c # r') \<le> length r1" using length_skip_ws [of r1] c by simp
    then have "2 * length (skip_ws r') + 2 \<le> n"
      using "4.prems" l1 length_skip_ws [of r'] by simp
    then have "scan_items n (skip_ws r') \<noteq> Inl Out_of_fuel"
      using "4.IH"(2) v c by fastforce
    then show False using m by simp
  qed
next
  case (5 s)
  then show ?case by simp
next
  case (6 n s)
  show ?case
  proof
    assume o: "scan_members (Suc n) s = Inl Out_of_fuel"
    then obtain q t where s: "s = q # t" by (cases s) auto
    then have q: "q = CHR 0x22" using o by (auto split: if_splits)
    obtain k r1 where k: "scanstring t = Inr (k, r1)"
      using o s q scanstring_fuel [of t] by (auto split: sum.splits)
    have l1: "length r1 < length t" using scanstring_shorter [OF k] .
    obtain c r2 where c: "skip_ws r1 = c # r2" "c = CHR '':''"
      using o s q k by (auto split: list.splits if_splits)
    have l2: "length (c # r2) \<le> length r1" using length_skip_ws [of r1] c by simp
    have "2 * length (skip_ws r2) < n"
      using "6.prems" s l1 l2 length_skip_ws [of r2] by simp
    then have a: "scan_once n (skip_ws r2) \<noteq> Inl Out_of_fuel"
      using "6.IH"(1) s q k c by fastforce
    then obtain w r3 where w: "scan_once n (skip_ws r2) = Inr (w, r3)"
      using o s q k c by (auto split: sum.splits)
    have "length r3 < length (skip_ws r2)" using scan_shorter(1) [OF w] .
    then have l3: "length r3 < length r2" using length_skip_ws [of r2] by simp
    obtain d r4 where d: "skip_ws r3 = d # r4" "d = CHR '',''"
      using o s q k c w by (auto split: list.splits if_splits)
    then have m: "scan_members n (skip_ws r4) = Inl Out_of_fuel"
      using o s q k c w by (auto split: sum.splits)
    have l4: "length (d # r4) \<le> length r3" using length_skip_ws [of r3] d by simp
    have "2 * length (skip_ws r4) + 2 \<le> n"
      using "6.prems" s l1 l2 l3 l4 length_skip_ws [of r4] by simp
    then have "scan_members n (skip_ws r4) \<noteq> Inl Out_of_fuel"
      using "6.IH"(2) s q k c w d by fastforce
    then show False using m by simp
  qed
qed

lemma json_loads_has_fuel: "json_loads s \<noteq> Inl Out_of_fuel"
proof -
  have "2 * length (skip_ws s) < 2 * length s + 2" using length_skip_ws [of s] by simp
  then have "scan_once (2 * length s + 2) (skip_ws s) \<noteq> Inl Out_of_fuel"
    by (rule scan_fuel(1))
  then show ?thesis
    by (cases "scan_once (2 * length s + 2) (skip_ws s)")
       (auto simp only: json_loads_def sum.case split: prod.splits if_splits)
qed

end
